theory Spec2Isabelle
  imports Main "HOL-Library.Word" "HOL-Library.Signed_Division" "HOL-Library.Monad_Syntax"
    "HOL-Library.Multiset"
begin

unbundle bit_operations_syntax

section \<open>Data model\<close>

text \<open>
  The unit under verification is \<^verbatim>\<open>src/c++/src/minuet_map.cpp\<close>. Its header
  \<^verbatim>\<open>minuet_map.hpp\<close> (the types \<^verbatim>\<open>Coord3D\<close>, \<^verbatim>\<open>IndexedCoord\<close>,
  \<^verbatim>\<open>MemoryAccessEntry\<close>, the global configuration \<^verbatim>\<open>g_config\<close>, the \<^verbatim>\<open>bidict\<close>
  class and the kernel-map container) is not part of the sources. The types are laid out
  from their uses in the unit; the coordinate codec is a parameter of every function that
  calls it.

  Machine integers: \<^verbatim>\<open>uint32_t\<close> keys are \<open>32 word\<close>, trace addresses are
  \<open>64 word\<close>, \<^verbatim>\<open>size_t\<close> indices and sizes are \<open>nat\<close> (a vector never holds
  \<open>2 ^ 64\<close> elements), and a C++ \<^verbatim>\<open>int\<close> is the \<open>int\<close> it denotes, with every
  cast into \<^verbatim>\<open>int\<close> or \<^verbatim>\<open>uint32_t\<close> written out as the wrap-around it is.
\<close>

type_synonym u8 = "8 word"
type_synonym u32 = "32 word"
type_synonym u64 = "64 word"

datatype Coord3D = Coord3D (cx: int) (cy: int) (cz: int)

record IndexedCoord =
  coord :: Coord3D
  orig_idx :: int

record MemoryAccessEntry =
  phase :: u8
  thread_id :: u8
  op :: u8
  tensor :: u8
  addr :: u64

text \<open>The fields of \<^verbatim>\<open>g_config\<close> that the unit reads.\<close>

record config =
  I_BASE :: u64
  QK_BASE :: u64
  QI_BASE :: u64
  QO_BASE :: u64
  PIV_BASE :: u64
  KM_BASE :: u64
  WO_BASE :: u64
  IV_BASE :: u64
  GM_BASE :: u64
  WV_BASE :: u64
  TILE_BASE :: u64
  NUM_THREADS :: nat
  SIZE_KEY :: u64
  SIZE_INT :: u64
  debug :: bool

text \<open>
  The coordinate codec of \<^verbatim>\<open>Coord3D\<close>: \<^verbatim>\<open>quantized(stride)\<close>, \<^verbatim>\<open>to_key()\<close> and the
  static \<^verbatim>\<open>from_key(key)\<close>. Their bodies are in the missing header, so the unit's
  functions take them as a parameter. \<open>None\<close> stands for a call that does not return a
  value (an exception, or a division by zero).
\<close>

record codec =
  quantized :: "Coord3D \<Rightarrow> int \<Rightarrow> Coord3D option"
  to_key :: "Coord3D \<Rightarrow> u32 option"
  from_key :: "u32 \<Rightarrow> Coord3D"

text \<open>\<^verbatim>\<open>static_cast<int>\<close> of a \<^verbatim>\<open>size_t\<close>: the low 32 bits, read as two's complement.\<close>

definition int_of_size :: "nat \<Rightarrow> int" where
  "int_of_size n = sint (word_of_nat n :: 32 word)"

text \<open>Conversion of an \<^verbatim>\<open>int\<close> to \<^verbatim>\<open>size_t\<close> in mixed arithmetic.\<close>

definition size_of_int :: "int \<Rightarrow> nat" where
  "size_of_int i = nat (i mod 2 ^ 64)"

text \<open>
  Modelled from the spec: \<^verbatim>\<open>operator+\<close> of \<^verbatim>\<open>Coord3D\<close>, declared in the missing header;
  the spec gives it as component-wise addition.
\<close>

definition coord_add :: "Coord3D \<Rightarrow> Coord3D \<Rightarrow> Coord3D" where
  "coord_add a b = Coord3D (cx a + cx b) (cy a + cy b) (cz a + cz b)"

section \<open>The coordinate codec of the specification\<close>

text \<open>
  Modelled from the spec: \<^verbatim>\<open>Coord3D::quantized\<close>, \<^verbatim>\<open>Coord3D::to_key\<close> and
  \<^verbatim>\<open>Coord3D::from_key\<close>, whose bodies are in the missing header. The spec fixes a 32-bit
  unsigned key with one fixed bit width per axis, an exact inverse, and an error when a
  component exceeds the bit budget of its axis; it does not give the width, which is the
  parameter \<open>w\<close> here (three fields of \<open>w\<close> bits, \<open>x\<close> in the highest). Quantization
  divides each axis by the stride with the integer division of C++ (truncation); a zero
  stride has no result.
\<close>

definition in_budget :: "nat \<Rightarrow> int \<Rightarrow> bool" where
  "in_budget w v = (0 \<le> v \<and> v < 2 ^ w)"

definition Coord3D_quantized :: "Coord3D \<Rightarrow> int \<Rightarrow> Coord3D option" where
  "Coord3D_quantized c stride =
     (if stride = 0 then None
      else Some (Coord3D (cx c sdiv stride) (cy c sdiv stride) (cz c sdiv stride)))"

definition Coord3D_to_key :: "nat \<Rightarrow> Coord3D \<Rightarrow> u32 option" where
  "Coord3D_to_key w c =
     (if in_budget w (cx c) \<and> in_budget w (cy c) \<and> in_budget w (cz c)
      then Some (push_bit (2 * w) (word_of_int (cx c)) OR push_bit w (word_of_int (cy c))
                 OR word_of_int (cz c))
      else None)"

definition Coord3D_from_key :: "nat \<Rightarrow> u32 \<Rightarrow> Coord3D" where
  "Coord3D_from_key w k =
     Coord3D (uint (take_bit w (drop_bit (2 * w) k)))
             (uint (take_bit w (drop_bit w k)))
             (uint (take_bit w k))"

definition spec_codec :: "nat \<Rightarrow> codec" where
  "spec_codec w =
     \<lparr>quantized = Coord3D_quantized, to_key = Coord3D_to_key w, from_key = Coord3D_from_key w\<rparr>"

section \<open>Memory tracing\<close>

text \<open>The code tables \<^verbatim>\<open>PHASES\<close>, \<^verbatim>\<open>TENSORS\<close> and \<^verbatim>\<open>OPS\<close>, as the unit initialises them.\<close>

definition PHASES :: "(string \<times> nat) list" where
  "PHASES = [(''RDX'', 0), (''QRY'', 1), (''SRT'', 2), (''PVT'', 3), (''LKP'', 4),
             (''GTH'', 5), (''SCT'', 6)]"

definition TENSORS :: "(string \<times> nat) list" where
  "TENSORS = [(''I'', 0), (''QK'', 1), (''QI'', 2), (''QO'', 3), (''PIV'', 4), (''KM'', 5),
              (''WC'', 6), (''TILE'', 7), (''IV'', 8), (''GM'', 9), (''WV'', 10),
              (''Unknown'', 255)]"

definition OPS :: "(string \<times> nat) list" where
  "OPS = [(''R'', 0), (''W'', 1)]"

text \<open>
  \<^verbatim>\<open>table.forward.at(name)\<close>, converted to \<^verbatim>\<open>uint8_t\<close>: \<open>None\<close> is the
  \<^verbatim>\<open>std::out_of_range\<close> of a missing name.
\<close>

definition forward_at :: "(string \<times> nat) list \<Rightarrow> string \<Rightarrow> u8 option" where
  "forward_at table name = map_option word_of_nat (map_of table name)"

text \<open>\<^verbatim>\<open>table.inverse.at(code)\<close>.\<close>

definition inverse_at :: "(string \<times> nat) list \<Rightarrow> nat \<Rightarrow> string option" where
  "inverse_at table code = map_of (map (\<lambda>(n, c). (c, n)) table) code"

definition addr_to_tensor :: "config \<Rightarrow> u64 \<Rightarrow> u8 option" where
  "addr_to_tensor cfg a =
     (if I_BASE cfg \<le> a \<and> a < QK_BASE cfg then forward_at TENSORS ''I''
      else if QK_BASE cfg \<le> a \<and> a < QI_BASE cfg then forward_at TENSORS ''QK''
      else if QI_BASE cfg \<le> a \<and> a < QO_BASE cfg then forward_at TENSORS ''QI''
      else if QO_BASE cfg \<le> a \<and> a < PIV_BASE cfg then forward_at TENSORS ''QO''
      else if PIV_BASE cfg \<le> a \<and> a < KM_BASE cfg then forward_at TENSORS ''PIV''
      else if KM_BASE cfg \<le> a \<and> a < WO_BASE cfg then forward_at TENSORS ''KM''
      else if WO_BASE cfg \<le> a \<and> a < IV_BASE cfg then forward_at TENSORS ''WC''
      else if IV_BASE cfg \<le> a \<and> a < GM_BASE cfg then forward_at TENSORS ''IV''
      else if GM_BASE cfg \<le> a \<and> a < WV_BASE cfg then forward_at TENSORS ''GM''
      else if WV_BASE cfg \<le> a \<and> a < WV_BASE cfg + push_bit 32 2 then forward_at TENSORS ''WV''
      else forward_at TENSORS ''Unknown'')"

text \<open>
  \<^verbatim>\<open>record_access\<close> and the \<^verbatim>\<open>record_access_local\<close> of a lookup worker build the same
  entry; the first appends it to the global trace, the second to the worker's buffer. The
  model returns the entry, and each phase returns the entries it recorded, in order. The
  current phase is an argument: every phase sets \<^verbatim>\<open>curr_phase\<close> before it records.
\<close>

definition record_access :: "config \<Rightarrow> string \<Rightarrow> nat \<Rightarrow> string \<Rightarrow> u64 \<Rightarrow> MemoryAccessEntry option" where
  "record_access cfg curr_phase t_id op_str a =
     do {
       phase_id \<leftarrow> forward_at PHASES curr_phase;
       op_id \<leftarrow> forward_at OPS op_str;
       tensor_id \<leftarrow> addr_to_tensor cfg a;
       Some \<lparr>phase = phase_id, thread_id = word_of_nat t_id, op = op_id, tensor = tensor_id,
             addr = a\<rparr>
     }"

text \<open>A loop body with a result, run over a list in order; the first failure ends it.\<close>

fun traverse :: "('a \<Rightarrow> 'b option) \<Rightarrow> 'a list \<Rightarrow> 'b list option" where
  "traverse f [] = Some []"
| "traverse f (x # xs) =
     (case f x of None \<Rightarrow> None
      | Some y \<Rightarrow> (case traverse f xs of None \<Rightarrow> None | Some ys \<Rightarrow> Some (y # ys)))"

section \<open>Phase RDX: sort and deduplicate\<close>

text \<open>\<^verbatim>\<open>i % g_config.NUM_THREADS\<close>: no value when the thread count is zero.\<close>

definition thread_of :: "config \<Rightarrow> nat \<Rightarrow> nat option" where
  "thread_of cfg i = (if NUM_THREADS cfg = 0 then None else Some (i mod NUM_THREADS cfg))"

text \<open>
  \<^verbatim>\<open>radix_sort_with_memtrace\<close> returns its array as it is; what it does is the trace: four
  passes, each a loop of one read per element and a loop of a read and a write per element.
\<close>

definition radix_read :: "config \<Rightarrow> u64 \<Rightarrow> nat \<Rightarrow> MemoryAccessEntry list option" where
  "radix_read cfg base_addr i =
     do {
       t_id \<leftarrow> thread_of cfg i;
       e \<leftarrow> record_access cfg ''RDX'' t_id ''R'' (base_addr + word_of_nat i * SIZE_KEY cfg);
       Some [e]
     }"

definition radix_read_write :: "config \<Rightarrow> u64 \<Rightarrow> nat \<Rightarrow> MemoryAccessEntry list option" where
  "radix_read_write cfg base_addr i =
     do {
       t_id \<leftarrow> thread_of cfg i;
       r \<leftarrow> record_access cfg ''RDX'' t_id ''R'' (base_addr + word_of_nat i * SIZE_KEY cfg);
       op_w \<leftarrow> inverse_at OPS 1;
       w \<leftarrow> record_access cfg ''RDX'' t_id op_w (base_addr + word_of_nat i * SIZE_KEY cfg);
       Some [r, w]
     }"

definition radix_pass :: "config \<Rightarrow> u64 \<Rightarrow> nat \<Rightarrow> MemoryAccessEntry list option" where
  "radix_pass cfg base_addr N =
     do {
       rs \<leftarrow> traverse (radix_read cfg base_addr) [0..<N];
       ws \<leftarrow> traverse (radix_read_write cfg base_addr) [0..<N];
       Some (concat rs @ concat ws)
     }"

definition radix_sort_with_memtrace ::
  "config \<Rightarrow> u32 list \<Rightarrow> u64 \<Rightarrow> (u32 list \<times> MemoryAccessEntry list) option" where
  "radix_sort_with_memtrace cfg arr base_addr =
     (if length arr = 0 then Some (arr, [])
      else do {
        ps \<leftarrow> traverse (\<lambda>p. radix_pass cfg base_addr (length arr)) [0..<4];
        Some (arr, concat ps)
      })"

text \<open>The first loop of \<^verbatim>\<open>compute_unique_sorted_coords\<close>, from index \<open>idx\<close> on.\<close>

fun idx_keys_from :: "codec \<Rightarrow> int \<Rightarrow> nat \<Rightarrow> Coord3D list \<Rightarrow> (u32 \<times> int) list option" where
  "idx_keys_from cd stride idx [] = Some []"
| "idx_keys_from cd stride idx (c # cs) =
     (case quantized cd c stride of None \<Rightarrow> None
      | Some qtz_coord \<Rightarrow>
          (case to_key cd qtz_coord of None \<Rightarrow> None
           | Some k \<Rightarrow>
               (case idx_keys_from cd stride (Suc idx) cs of None \<Rightarrow> None
                | Some ps \<Rightarrow> Some ((k, int_of_size idx) # ps))))"

text \<open>The scan over the sorted pairs from position 1 on, \<open>last_key\<close> being the key emitted last.\<close>

fun scan_unique :: "codec \<Rightarrow> u32 \<Rightarrow> (u32 \<times> int) list \<Rightarrow> IndexedCoord list" where
  "scan_unique cd last_key [] = []"
| "scan_unique cd last_key (p # ps) =
     (if fst p \<noteq> last_key
      then \<lparr>coord = from_key cd (fst p), orig_idx = snd p\<rparr> # scan_unique cd (fst p) ps
      else scan_unique cd last_key ps)"

text \<open>
  The debug listing prints \<^verbatim>\<open>ic.to_key()\<close> of every emitted entry: the key of its
  coordinate. The text printed is not modelled, the calls are.
\<close>

definition debug_listing :: "config \<Rightarrow> codec \<Rightarrow> IndexedCoord list \<Rightarrow> unit option" where
  "debug_listing cfg cd ics =
     (if debug cfg then map_option (\<lambda>ks. ()) (traverse (\<lambda>ic. to_key cd (coord ic)) ics)
      else Some ())"

text \<open>
  \<^verbatim>\<open>std::stable_sort\<close> with the comparison \<^verbatim>\<open>a.first < b.first\<close> is \<open>sort_key fst\<close>: the
  stable sort by key is unique. The result is the vector returned and the trace recorded.
\<close>

definition compute_unique_sorted_coords ::
  "config \<Rightarrow> codec \<Rightarrow> Coord3D list \<Rightarrow> int \<Rightarrow> (IndexedCoord list \<times> MemoryAccessEntry list) option" where
  "compute_unique_sorted_coords cfg cd in_coords stride =
     do {
       idx_keys_pairs \<leftarrow> idx_keys_from cd stride 0 in_coords;
       (raw_keys, tr) \<leftarrow> radix_sort_with_memtrace cfg (map fst idx_keys_pairs) (I_BASE cfg);
       let uniq_coords_vec =
         (case sort_key fst idx_keys_pairs of
            [] \<Rightarrow> []
          | p # ps \<Rightarrow> \<lparr>coord = from_key cd (fst p), orig_idx = snd p\<rparr> # scan_unique cd (fst p) ps);
       _ \<leftarrow> debug_listing cfg cd uniq_coords_vec;
       Some (uniq_coords_vec, tr)
     }"

section \<open>Phase QRY: query construction\<close>

record BuildQueriesResult =
  qry_keys :: "IndexedCoord list"
  qry_in_idx :: "int list"
  qry_off_idx :: "int list"
  wt_offsets :: "Coord3D list"

text \<open>The body of the inner loop: the four assignments at \<^verbatim>\<open>glob_idx\<close>.\<close>

definition query_step ::
  "IndexedCoord list \<Rightarrow> Coord3D list \<Rightarrow> nat \<Rightarrow> nat \<Rightarrow> BuildQueriesResult \<Rightarrow> BuildQueriesResult" where
  "query_step uniq_coords off_coords off_idx in_idx r =
     (let offset_val = off_coords ! off_idx;
          indexed_coord_item = uniq_coords ! in_idx;
          glob_idx = off_idx * length uniq_coords + in_idx;
          qk_coord = coord_add (coord indexed_coord_item) offset_val
      in r\<lparr>qry_keys := (qry_keys r)[glob_idx := \<lparr>coord = qk_coord, orig_idx = orig_idx indexed_coord_item\<rparr>],
            qry_in_idx := (qry_in_idx r)[glob_idx := int_of_size in_idx],
            qry_off_idx := (qry_off_idx r)[glob_idx := int_of_size off_idx],
            wt_offsets := (wt_offsets r)[glob_idx := offset_val]\<rparr>)"

text \<open>
  \<^verbatim>\<open>build_coordinate_queries\<close>: the four vectors are resized to \<open>U * K\<close> elements and
  filled by the two nested loops. What a resized vector holds before it is assigned is the
  default-constructed \<^verbatim>\<open>IndexedCoord\<close> and \<^verbatim>\<open>Coord3D\<close> of the missing header, taken as
  the parameters \<open>ic0\<close> and \<open>c0\<close>; for \<^verbatim>\<open>int\<close> it is 0. The stride is not used.
\<close>

definition build_coordinate_queries ::
  "IndexedCoord \<Rightarrow> Coord3D \<Rightarrow> IndexedCoord list \<Rightarrow> int \<Rightarrow> Coord3D list \<Rightarrow> BuildQueriesResult" where
  "build_coordinate_queries ic0 c0 uniq_coords stride off_coords =
     (let num_inputs = length uniq_coords;
          num_offsets = length off_coords;
          total_queries = num_inputs * num_offsets;
          result = \<lparr>qry_keys = replicate total_queries ic0,
                    qry_in_idx = replicate total_queries 0,
                    qry_off_idx = replicate total_queries 0,
                    wt_offsets = replicate total_queries c0\<rparr>
      in fold (\<lambda>off_idx. fold (query_step uniq_coords off_coords off_idx) [0..<num_inputs])
           [0..<num_offsets] result)"

section \<open>Phase PVT: tiles and pivots\<close>

record TilesPivotsResult =
  tiles :: "IndexedCoord list list"
  pivots :: "IndexedCoord list"

text \<open>
  The loop of \<^verbatim>\<open>create_tiles_and_pivots\<close> from \<open>start\<close> on, with the step
  \<open>current_tile_size\<close> as the \<^verbatim>\<open>size_t\<close> it is added as. A step of zero never
  advances: the loop has no result. The accumulator is the result so far and the trace
  recorded so far.
\<close>

function tiles_loop ::
  "config \<Rightarrow> IndexedCoord list \<Rightarrow> nat \<Rightarrow> nat \<Rightarrow> TilesPivotsResult \<times> MemoryAccessEntry list
   \<Rightarrow> (TilesPivotsResult \<times> MemoryAccessEntry list) option" where
  "tiles_loop cfg uniq_coords current_tile_size start acc =
     (if current_tile_size = 0 then None
      else if start < length uniq_coords then
        (let end = min (start + current_tile_size) (length uniq_coords);
             current_tile = map ((!) uniq_coords) [start..<end];
             result = (fst acc)\<lparr>tiles := tiles (fst acc) @ [current_tile]\<rparr>
         in if current_tile \<noteq> [] then
              (let result' = result\<lparr>pivots := pivots result @ [current_tile ! 0]\<rparr>
               in case record_access cfg ''PVT'' 0 ''W''
                         (PIV_BASE cfg + word_of_nat (length (pivots result') - 1) * SIZE_KEY cfg) of
                    None \<Rightarrow> None
                  | Some e \<Rightarrow> tiles_loop cfg uniq_coords current_tile_size
                               (start + current_tile_size) (result', snd acc @ [e]))
            else tiles_loop cfg uniq_coords current_tile_size (start + current_tile_size)
                   (result, snd acc))
      else Some acc)"
  by pat_completeness auto
termination
  by (relation "measure (\<lambda>(cfg, uniq_coords, current_tile_size, start, acc). length uniq_coords - start)")
     auto

definition create_tiles_and_pivots ::
  "config \<Rightarrow> IndexedCoord list \<Rightarrow> int \<Rightarrow> (TilesPivotsResult \<times> MemoryAccessEntry list) option" where
  "create_tiles_and_pivots cfg uniq_coords tile_size_param =
     (let result = \<lparr>tiles = [], pivots = []\<rparr> in
      if uniq_coords = [] then Some (result, [])
      else
        (let current_tile_size =
               (if tile_size_param \<le> 0 then int_of_size (length uniq_coords) else tile_size_param)
         in if tile_size_param \<le> 0 \<and> current_tile_size = 0 then Some (result, [])
            else tiles_loop cfg uniq_coords (size_of_int current_tile_size) 0 (result, [])))"

section \<open>Phase LKP: coordinate lookup\<close>

text \<open>
  Modelled from the spec: the kernel-map container \<^verbatim>\<open>KernelMapType\<close> of the missing
  header, a mapping from an integer offset index to the ordered list of its
  (input index, query source index) pairs, retrievable sorted by descending list length.
  It is kept as an association list in ascending key order, as an ordered map iterates;
  \<open>kmap_emplace_back\<close> is \<^verbatim>\<open>kmap[k].emplace_back(a, b)\<close>, which creates the list of a
  new key, and \<open>get_sorted_items\<close> sorts stably by descending list length, so that lists
  of equal length stay in ascending key order.
\<close>

type_synonym KernelMapType = "(int \<times> (int \<times> int) list) list"

fun kmap_emplace_back :: "int \<Rightarrow> int \<times> int \<Rightarrow> KernelMapType \<Rightarrow> KernelMapType" where
  "kmap_emplace_back k v [] = [(k, [v])]"
| "kmap_emplace_back k v ((k', vs) # m) =
     (if k = k' then (k', vs @ [v]) # m
      else if k < k' then (k, [v]) # (k', vs) # m
      else (k', vs) # kmap_emplace_back k v m)"

definition kmap_at :: "KernelMapType \<Rightarrow> int \<Rightarrow> (int \<times> int) list" where
  "kmap_at m k = (case map_of m k of None \<Rightarrow> [] | Some vs \<Rightarrow> vs)"

definition get_sorted_items :: "KernelMapType \<Rightarrow> KernelMapType" where
  "get_sorted_items m = sort_key (\<lambda>p. - int (length (snd p))) m"

text \<open>A loop over a list that threads a state; the first failure ends it.\<close>

fun foldM :: "('a \<Rightarrow> 's \<Rightarrow> 's option) \<Rightarrow> 'a list \<Rightarrow> 's \<Rightarrow> 's option" where
  "foldM f [] s = Some s"
| "foldM f (x # xs) s = (case f x s of None \<Rightarrow> None | Some s' \<Rightarrow> foldM f xs s')"

text \<open>
  The state shared by the workers: the kernel map, the atomic counter of kernel-map
  writes, and the global trace.
\<close>

record lkp_state =
  kmap :: KernelMapType
  kmap_write_idx_atomic :: u64
  mem_trace :: "MemoryAccessEntry list"

text \<open>
  The binary search over the pivots, \<^verbatim>\<open>while (low <= high)\<close>. It returns the tile chosen
  and the pivot reads it recorded. From \<open>low = 0\<close> and \<open>high = size - 1\<close> every \<open>mid\<close>
  is an index of \<open>pivs\<close>.
\<close>

function find_tile_id ::
  "config \<Rightarrow> codec \<Rightarrow> nat \<Rightarrow> IndexedCoord list \<Rightarrow> u32 \<Rightarrow> int \<Rightarrow> int \<Rightarrow> int
   \<Rightarrow> (int \<times> MemoryAccessEntry list) option" where
  "find_tile_id cfg cd tid pivs current_query_key low high target_tile_id =
     (if low \<le> high then
        (let mid = low + (high - low) div 2 in
         case record_access cfg ''LKP'' tid ''R'' (PIV_BASE cfg + word_of_int mid * SIZE_KEY cfg) of
           None \<Rightarrow> None
         | Some e \<Rightarrow>
             (case to_key cd (coord (pivs ! nat mid)) of
                None \<Rightarrow> None
              | Some k \<Rightarrow>
                  (case (if k \<le> current_query_key
                         then find_tile_id cfg cd tid pivs current_query_key (mid + 1) high mid
                         else find_tile_id cfg cd tid pivs current_query_key low (mid - 1)
                                target_tile_id) of
                     None \<Rightarrow> None
                   | Some (t, tr) \<Rightarrow> Some (t, e # tr))))
      else Some (target_tile_id, []))"
  by pat_completeness auto
termination
  by (relation "measure (\<lambda>(cfg, cd, tid, pivs, q, low, high, t). nat (high + 1 - low))") auto

text \<open>
  The linear scan of the chosen tile from \<open>local_idx_in_tile\<close> on, over the elements not
  yet probed. It returns the \<^verbatim>\<open>orig_idx\<close> of the first element whose key is the query
  key, if there is one, and the tile reads recorded up to it.
\<close>

fun search_in_tile ::
  "config \<Rightarrow> codec \<Rightarrow> nat \<Rightarrow> nat \<Rightarrow> int \<Rightarrow> int \<Rightarrow> u32 \<Rightarrow> nat \<Rightarrow> IndexedCoord list
   \<Rightarrow> (int option \<times> MemoryAccessEntry list) option" where
  "search_in_tile cfg cd tid uniq_size target_tile_id tile_size_param current_query_key
     local_idx_in_tile [] = Some (None, [])"
| "search_in_tile cfg cd tid uniq_size target_tile_id tile_size_param current_query_key
     local_idx_in_tile (tile_indexed_coord # rest) =
     (let approx = (size_of_int (target_tile_id * tile_size_param) + local_idx_in_tile) mod 2 ^ 64;
          approx_tile_element_orig_idx =
            (if approx \<ge> uniq_size then (if uniq_size = 0 then 0 else uniq_size - 1) else approx)
      in case record_access cfg ''LKP'' tid ''R''
                (TILE_BASE cfg + word_of_nat approx_tile_element_orig_idx * SIZE_KEY cfg) of
           None \<Rightarrow> None
         | Some e \<Rightarrow>
             (case to_key cd (coord tile_indexed_coord) of
                None \<Rightarrow> None
              | Some k \<Rightarrow>
                  if k = current_query_key then Some (Some (orig_idx tile_indexed_coord), [e])
                  else
                    (case search_in_tile cfg cd tid uniq_size target_tile_id tile_size_param
                            current_query_key (Suc local_idx_in_tile) rest of
                       None \<Rightarrow> None
                     | Some (r, tr) \<Rightarrow> Some (r, e # tr))))"

text \<open>
  Step 2 of the loop body: the choice of the tile. With no pivot there is no tile
  (\<open>- 1\<close>); otherwise the search starts from tile 0.
\<close>

definition select_tile ::
  "config \<Rightarrow> codec \<Rightarrow> nat \<Rightarrow> IndexedCoord list \<Rightarrow> u32 \<Rightarrow> (int \<times> MemoryAccessEntry list) option" where
  "select_tile cfg cd tid pivs current_query_key =
     (if pivs \<noteq> []
      then find_tile_id cfg cd tid pivs current_query_key 0 (int_of_size (length pivs) - 1) 0
      else Some (- 1, []))"

text \<open>Step 3 of the loop body: the scan of the chosen tile, when there is one.\<close>

definition scan_tile ::
  "config \<Rightarrow> codec \<Rightarrow> nat \<Rightarrow> nat \<Rightarrow> IndexedCoord list list \<Rightarrow> int \<Rightarrow> u32 \<Rightarrow> int
   \<Rightarrow> (int option \<times> MemoryAccessEntry list) option" where
  "scan_tile cfg cd tid uniq_size tls tile_size_param current_query_key target_tile_id =
     (if target_tile_id \<noteq> - 1 \<and> target_tile_id < int_of_size (length tls)
      then search_in_tile cfg cd tid uniq_size target_tile_id tile_size_param
             current_query_key 0 (tls ! nat target_tile_id)
      else Some (None, []))"

text \<open>
  The body of a worker's loop for the query \<open>q_glob_idx\<close>. The accumulator is the shared
  state and the worker's private trace buffer. A query index beyond \<^verbatim>\<open>qry_off_idx\<close> is
  a read out of range and has no result.
\<close>

definition lookup_query ::
  "config \<Rightarrow> codec \<Rightarrow> IndexedCoord list \<Rightarrow> IndexedCoord list \<Rightarrow> int list
   \<Rightarrow> IndexedCoord list list \<Rightarrow> IndexedCoord list \<Rightarrow> int \<Rightarrow> nat \<Rightarrow> nat
   \<Rightarrow> lkp_state \<times> MemoryAccessEntry list \<Rightarrow> (lkp_state \<times> MemoryAccessEntry list) option" where
  "lookup_query cfg cd uniq_coords qkeys qoff_idx tls pivs tile_size_param tid q_glob_idx acc =
     (if q_glob_idx \<ge> length qkeys then Some acc
      else if q_glob_idx \<ge> length qoff_idx then None
      else do {
        let q_key_item = qkeys ! q_glob_idx;
        current_query_key \<leftarrow> to_key cd (coord q_key_item);
        let query_original_src_idx = orig_idx q_key_item;
        let current_query_offset_list_idx = qoff_idx ! q_glob_idx;
        e \<leftarrow> record_access cfg ''LKP'' tid ''R'' (QK_BASE cfg + word_of_nat q_glob_idx * SIZE_KEY cfg);
        (target_tile_id, ptr) \<leftarrow> select_tile cfg cd tid pivs current_query_key;
        (found, ttr) \<leftarrow>
          scan_tile cfg cd tid (length uniq_coords) tls tile_size_param current_query_key
            target_tile_id;
        case found of
          None \<Rightarrow> Some (fst acc, snd acc @ e # ptr @ ttr)
        | Some input_idx_from_uniq_coords \<Rightarrow>
            do {
              op_w \<leftarrow> inverse_at OPS 1;
              w \<leftarrow> record_access cfg ''LKP'' tid op_w
                     (KM_BASE cfg + kmap_write_idx_atomic (fst acc) * SIZE_INT cfg);
              Some ((fst acc)\<lparr>kmap := kmap_emplace_back current_query_offset_list_idx
                                       (input_idx_from_uniq_coords, query_original_src_idx)
                                       (kmap (fst acc)),
                               kmap_write_idx_atomic := kmap_write_idx_atomic (fst acc) + 1\<rparr>,
                    snd acc @ e # ptr @ ttr @ [w])
            }
      })"

text \<open>
  One worker: its sub-range of the batch, then the merge of its buffer into the global
  trace.
\<close>

definition worker ::
  "config \<Rightarrow> codec \<Rightarrow> IndexedCoord list \<Rightarrow> IndexedCoord list \<Rightarrow> int list
   \<Rightarrow> IndexedCoord list list \<Rightarrow> IndexedCoord list \<Rightarrow> int \<Rightarrow> nat \<Rightarrow> nat \<Rightarrow> nat \<Rightarrow> nat
   \<Rightarrow> lkp_state \<Rightarrow> lkp_state option" where
  "worker cfg cd uniq_coords qkeys qoff_idx tls pivs tile_size_param batch_start tid
     thread_start_in_batch thread_end_in_batch st =
     (case foldM (\<lambda>qry_offset_in_batch.
                    lookup_query cfg cd uniq_coords qkeys qoff_idx tls pivs tile_size_param
                      tid (batch_start + qry_offset_in_batch))
             [thread_start_in_batch..<thread_end_in_batch] (st, []) of
        None \<Rightarrow> None
      | Some (st', local_thread_mem_trace) \<Rightarrow>
          Some (st'\<lparr>mem_trace := mem_trace st' @ local_thread_mem_trace\<rparr>))"

text \<open>
  One batch. The workers of a batch run concurrently in the unit; they share the kernel
  map and the counter under a lock and an atomic, and read everything else. The model runs
  them one after the other in the order of their creation, which is one of the schedules
  the unit admits. A thread count of zero is a division by zero.
\<close>

definition run_batch ::
  "config \<Rightarrow> codec \<Rightarrow> IndexedCoord list \<Rightarrow> IndexedCoord list \<Rightarrow> int list
   \<Rightarrow> IndexedCoord list list \<Rightarrow> IndexedCoord list \<Rightarrow> int \<Rightarrow> nat \<Rightarrow> nat
   \<Rightarrow> lkp_state \<Rightarrow> lkp_state option" where
  "run_batch cfg cd uniq_coords qkeys qoff_idx tls pivs tile_size_param batch_start
     current_batch_size st =
     (if NUM_THREADS cfg = 0 then None
      else
        (let num_hw_threads = NUM_THREADS cfg;
             portion_size = (current_batch_size + num_hw_threads - 1) div num_hw_threads
         in foldM (\<lambda>tid st.
                     (let thread_start_in_batch = tid * portion_size;
                          thread_end_in_batch =
                            min (thread_start_in_batch + portion_size) current_batch_size
                      in if thread_start_in_batch < current_batch_size
                         then worker cfg cd uniq_coords qkeys qoff_idx tls pivs
                                tile_size_param batch_start tid thread_start_in_batch
                                thread_end_in_batch st
                         else Some st))
              [0..<num_hw_threads] st))"

text \<open>
  The loop over the batches from \<open>batch_idx\<close> on; \<open>BATCH_SIZE\<close> is 128. For
  \<open>batch_idx < num_batches\<close> the start of the batch is below \<open>qry_count\<close>, so the
  subtraction does not wrap.
\<close>

function batches_loop ::
  "config \<Rightarrow> codec \<Rightarrow> IndexedCoord list \<Rightarrow> IndexedCoord list \<Rightarrow> int list
   \<Rightarrow> IndexedCoord list list \<Rightarrow> IndexedCoord list \<Rightarrow> int \<Rightarrow> nat \<Rightarrow> nat
   \<Rightarrow> lkp_state \<Rightarrow> lkp_state option" where
  "batches_loop cfg cd uniq_coords qkeys qoff_idx tls pivs tile_size_param num_batches
     batch_idx st =
     (if batch_idx < num_batches then
        (let batch_start = batch_idx * 128;
             current_batch_size = min 128 (length qkeys - batch_start)
         in if current_batch_size \<le> 0 then Some st
            else
              (case run_batch cfg cd uniq_coords qkeys qoff_idx tls pivs tile_size_param
                      batch_start current_batch_size st of
                 None \<Rightarrow> None
               | Some st' \<Rightarrow>
                   batches_loop cfg cd uniq_coords qkeys qoff_idx tls pivs tile_size_param
                     num_batches (batch_idx + 1) st'))
      else Some st)"
  by pat_completeness auto
termination
  by (relation "measure (\<lambda>(cfg, cd, uniq_coords, qkeys, qoff_idx, tls, pivs,
                            tile_size_param, num_batches, batch_idx, st). num_batches - batch_idx)")
     auto

text \<open>
  \<^verbatim>\<open>perform_coordinate_lookup\<close> returns the kernel map; the model returns with it the
  entries merged into the global trace. \<^verbatim>\<open>qry_in_idx\<close> and \<^verbatim>\<open>wt_offsets\<close> are not read.
\<close>

definition perform_coordinate_lookup ::
  "config \<Rightarrow> codec \<Rightarrow> IndexedCoord list \<Rightarrow> IndexedCoord list \<Rightarrow> int list \<Rightarrow> int list
   \<Rightarrow> Coord3D list \<Rightarrow> IndexedCoord list list \<Rightarrow> IndexedCoord list \<Rightarrow> int
   \<Rightarrow> (KernelMapType \<times> MemoryAccessEntry list) option" where
  "perform_coordinate_lookup cfg cd uniq_coords qkeys qin_idx qoff_idx wt_offs tls
     pivs tile_size_param =
     (if uniq_coords = [] \<or> qkeys = [] then Some ([], [])
      else
        (let qry_count = length qkeys;
             num_batches = (qry_count + 128 - 1) div 128
         in map_option (\<lambda>st. (kmap st, mem_trace st))
              (batches_loop cfg cd uniq_coords qkeys qoff_idx tls pivs tile_size_param
                 num_batches 0 \<lparr>kmap = [], kmap_write_idx_atomic = 0, mem_trace = []\<rparr>)))"

subsection \<open>The values of the lookup, without its trace\<close>

text \<open>
  What the lookup computes does not depend on what it records. The three functions below
  are the binary search, the tile scan and the body of the query loop with the recording
  left out: the tile chosen, the \<^verbatim>\<open>orig_idx\<close> matched, and the entry a query appends to
  the kernel map (the offset index and the pair), if any. The outer \<open>option\<close> is still
  the failure of \<^verbatim>\<open>to_key\<close> or of a read out of range. They are proved below to be the
  projections of \<open>find_tile_id\<close>, \<open>search_in_tile\<close> and \<open>lookup_query\<close>.
\<close>

function find_tile_id_value :: "codec \<Rightarrow> IndexedCoord list \<Rightarrow> u32 \<Rightarrow> int \<Rightarrow> int \<Rightarrow> int \<Rightarrow> int option" where
  "find_tile_id_value cd pivs current_query_key low high target_tile_id =
     (if low \<le> high then
        (let mid = low + (high - low) div 2 in
         case to_key cd (coord (pivs ! nat mid)) of
           None \<Rightarrow> None
         | Some k \<Rightarrow>
             if k \<le> current_query_key
             then find_tile_id_value cd pivs current_query_key (mid + 1) high mid
             else find_tile_id_value cd pivs current_query_key low (mid - 1) target_tile_id)
      else Some target_tile_id)"
  by pat_completeness auto
termination
  by (relation "measure (\<lambda>(cd, pivs, q, low, high, t). nat (high + 1 - low))") auto

fun search_in_tile_value :: "codec \<Rightarrow> u32 \<Rightarrow> IndexedCoord list \<Rightarrow> int option option" where
  "search_in_tile_value cd current_query_key [] = Some None"
| "search_in_tile_value cd current_query_key (tile_indexed_coord # rest) =
     (case to_key cd (coord tile_indexed_coord) of
        None \<Rightarrow> None
      | Some k \<Rightarrow>
          if k = current_query_key then Some (Some (orig_idx tile_indexed_coord))
          else search_in_tile_value cd current_query_key rest)"

definition query_match ::
  "codec \<Rightarrow> IndexedCoord list \<Rightarrow> int list \<Rightarrow> IndexedCoord list list \<Rightarrow> IndexedCoord list \<Rightarrow> nat
   \<Rightarrow> (int \<times> int \<times> int) option option" where
  "query_match cd qkeys qoff_idx tls pivs q_glob_idx =
     (if q_glob_idx \<ge> length qkeys then Some None
      else if q_glob_idx \<ge> length qoff_idx then None
      else do {
        current_query_key \<leftarrow> to_key cd (coord (qkeys ! q_glob_idx));
        target_tile_id \<leftarrow>
          (if pivs \<noteq> []
           then find_tile_id_value cd pivs current_query_key 0 (int_of_size (length pivs) - 1) 0
           else Some (- 1));
        found \<leftarrow>
          (if target_tile_id \<noteq> - 1 \<and> target_tile_id < int_of_size (length tls)
           then search_in_tile_value cd current_query_key (tls ! nat target_tile_id)
           else Some None);
        Some (map_option (\<lambda>a. (qoff_idx ! q_glob_idx, a, orig_idx (qkeys ! q_glob_idx))) found)
      })"

text \<open>The kernel map after the queries \<open>gs\<close>, processed in this order from the map \<open>km\<close>.\<close>

definition apply_match :: "(int \<times> int \<times> int) option \<Rightarrow> KernelMapType \<Rightarrow> KernelMapType" where
  "apply_match m km = (case m of None \<Rightarrow> km | Some (k, v) \<Rightarrow> kmap_emplace_back k v km)"

definition run_queries ::
  "codec \<Rightarrow> IndexedCoord list \<Rightarrow> int list \<Rightarrow> IndexedCoord list list \<Rightarrow> IndexedCoord list
   \<Rightarrow> nat list \<Rightarrow> KernelMapType \<Rightarrow> KernelMapType option" where
  "run_queries cd qkeys qoff_idx tls pivs gs km =
     foldM (\<lambda>g km. map_option (\<lambda>m. apply_match m km) (query_match cd qkeys qoff_idx tls pivs g))
       gs km"

text \<open>
  What the query \<open>g\<close> adds to the list of the offset index \<open>k\<close>: its pair when it
  matches under this offset index, nothing otherwise.
\<close>

definition contribution ::
  "codec \<Rightarrow> IndexedCoord list \<Rightarrow> int list \<Rightarrow> IndexedCoord list list \<Rightarrow> IndexedCoord list \<Rightarrow> int
   \<Rightarrow> nat \<Rightarrow> (int \<times> int) list" where
  "contribution cd qkeys qoff_idx tls pivs k g =
     (case query_match cd qkeys qoff_idx tls pivs g of
        Some (Some (k', v)) \<Rightarrow> if k' = k then [v] else []
      | _ \<Rightarrow> [])"

section \<open>Serialisation\<close>

text \<open>
  Both writers open a gzip stream, write chunks through \<^verbatim>\<open>write_and_crc\<close> and close
  it. The stream and the checksum are zlib's: the environment \<open>gz_env\<close> says whether
  \<^verbatim>\<open>gzopen\<close> succeeds and whether the \<open>n\<close>-th call of \<^verbatim>\<open>gzwrite\<close> writes all its
  bytes, and \<^verbatim>\<open>crc32\<close> is the parameter \<open>crc32_fn\<close>. What is modelled of the file is
  its uncompressed payload: \<open>None\<close> when the file was never opened, \<open>Some bs\<close> once
  \<^verbatim>\<open>gzopen\<close> has created it. A value is written from its bytes in memory, least
  significant byte first on the little-endian hosts the format names.
\<close>

datatype error = RuntimeError | InvalidArgument | CodecError

record gz_env =
  open_ok :: bool
  write_ok :: "nat \<Rightarrow> bool"

record gz_writer =
  written :: "u8 list"
  crc :: u32
  calls :: nat

record gz_result =
  outcome :: "error + u32"
  payload :: "u8 list option"
  warnings :: "u32 list"

definition le_bytes :: "nat \<Rightarrow> 'a::len word \<Rightarrow> u8 list" where
  "le_bytes n v = map (\<lambda>i. ucast (drop_bit (8 * i) v)) [0..<n]"

text \<open>\<^verbatim>\<open>write_and_crc\<close>: a short write closes the file and throws.\<close>

definition write_and_crc ::
  "gz_env \<Rightarrow> (u32 \<Rightarrow> u8 list \<Rightarrow> u32) \<Rightarrow> u8 list \<Rightarrow> gz_writer \<Rightarrow> error \<times> gz_writer + gz_writer" where
  "write_and_crc env crc32_fn data w =
     (if write_ok env (calls w)
      then Inr \<lparr>written = written w @ data, crc = crc32_fn (crc w) data, calls = calls w + 1\<rparr>
      else Inl (RuntimeError, w\<lparr>calls := calls w + 1\<rparr>))"

fun write_chunks ::
  "gz_env \<Rightarrow> (u32 \<Rightarrow> u8 list \<Rightarrow> u32) \<Rightarrow> u8 list list \<Rightarrow> gz_writer \<Rightarrow> error \<times> gz_writer + gz_writer" where
  "write_chunks env crc32_fn [] w = Inr w"
| "write_chunks env crc32_fn (data # rest) w =
     (case write_and_crc env crc32_fn data w of
        Inl f \<Rightarrow> Inl f
      | Inr w' \<Rightarrow> write_chunks env crc32_fn rest w')"

text \<open>The writes of one trace entry: four tag bytes and the address in 4 or 8 bytes.\<close>

definition trace_entry_chunks :: "int \<Rightarrow> MemoryAccessEntry \<Rightarrow> u8 list list" where
  "trace_entry_chunks sizeof_addr entry =
     [[phase entry], [thread_id entry], [op entry], [tensor entry],
      (if sizeof_addr = 4 then le_bytes 4 (ucast (addr entry) :: u32)
       else le_bytes 8 (addr entry))]"

text \<open>
  \<^verbatim>\<open>write_gmem_trace\<close> over the global trace \<open>trace\<close>. The file is opened before the
  address width is checked.
\<close>

definition write_gmem_trace ::
  "gz_env \<Rightarrow> (u32 \<Rightarrow> u8 list \<Rightarrow> u32) \<Rightarrow> MemoryAccessEntry list \<Rightarrow> int \<Rightarrow> gz_result" where
  "write_gmem_trace env crc32_fn trace sizeof_addr =
     (if \<not> open_ok env then \<lparr>outcome = Inl RuntimeError, payload = None, warnings = []\<rparr>
      else if sizeof_addr \<noteq> 4 \<and> sizeof_addr \<noteq> 8
      then \<lparr>outcome = Inl InvalidArgument, payload = Some [], warnings = []\<rparr>
      else
        (let num_entries = (word_of_nat (length trace) :: u32) in
         case write_chunks env crc32_fn
                (le_bytes 4 num_entries # concat (map (trace_entry_chunks sizeof_addr) trace))
                \<lparr>written = [], crc = crc32_fn 0 [], calls = 0\<rparr> of
           Inl (e, w) \<Rightarrow> \<lparr>outcome = Inl e, payload = Some (written w), warnings = []\<rparr>
         | Inr w \<Rightarrow> \<lparr>outcome = Inr (crc w), payload = Some (written w), warnings = []\<rparr>))"

text \<open>The three writes of one match of a group whose packed offset key is \<open>packed\<close>.\<close>

definition match_chunks :: "u32 \<Rightarrow> int \<times> int \<Rightarrow> u8 list list" where
  "match_chunks packed_offset_key_to_write match =
     [le_bytes 4 packed_offset_key_to_write,
      le_bytes 4 (word_of_int (fst match) :: u32),
      le_bytes 4 (word_of_int (snd match) :: u32)]"

text \<open>
  The loop of \<^verbatim>\<open>write_kernel_map_to_gz\<close> over the sorted items. The accumulator is the
  writer and the offset indices reported as out of bounds so far. An exception of
  \<^verbatim>\<open>to_key\<close> leaves the function as \<open>CodecError\<close>.
\<close>

fun write_groups ::
  "gz_env \<Rightarrow> (u32 \<Rightarrow> u8 list \<Rightarrow> u32) \<Rightarrow> codec \<Rightarrow> Coord3D list \<Rightarrow> KernelMapType
   \<Rightarrow> gz_writer \<times> u32 list \<Rightarrow> error \<times> gz_writer \<times> u32 list + gz_writer \<times> u32 list" where
  "write_groups env crc32_fn cd off_list [] acc = Inr acc"
| "write_groups env crc32_fn cd off_list (pair # rest) acc =
     (let offset_idx = (word_of_int (fst pair) :: u32) in
      if unat offset_idx \<ge> length off_list
      then write_groups env crc32_fn cd off_list rest (fst acc, snd acc @ [offset_idx])
      else
        (case to_key cd (off_list ! unat offset_idx) of
           None \<Rightarrow> Inl (CodecError, acc)
         | Some packed_offset_key_to_write \<Rightarrow>
             (case write_chunks env crc32_fn
                     (concat (map (match_chunks packed_offset_key_to_write) (snd pair))) (fst acc) of
                Inl (e, w) \<Rightarrow> Inl (e, w, snd acc)
              | Inr w \<Rightarrow> write_groups env crc32_fn cd off_list rest (w, snd acc))))"

definition write_kernel_map_to_gz ::
  "gz_env \<Rightarrow> (u32 \<Rightarrow> u8 list \<Rightarrow> u32) \<Rightarrow> codec \<Rightarrow> KernelMapType \<Rightarrow> Coord3D list \<Rightarrow> gz_result" where
  "write_kernel_map_to_gz env crc32_fn cd kmap_data off_list =
     (if \<not> open_ok env then \<lparr>outcome = Inl RuntimeError, payload = None, warnings = []\<rparr>
      else
        (let num_total_entries =
               fold (\<lambda>pair n. n + (word_of_nat (length (snd pair)) :: u32)) kmap_data 0
         in case write_and_crc env crc32_fn (le_bytes 4 num_total_entries)
                   \<lparr>written = [], crc = crc32_fn 0 [], calls = 0\<rparr> of
              Inl (e, w) \<Rightarrow> \<lparr>outcome = Inl e, payload = Some (written w), warnings = []\<rparr>
            | Inr w \<Rightarrow>
                (case write_groups env crc32_fn cd off_list (get_sorted_items kmap_data) (w, []) of
                   Inl (e, w', log) \<Rightarrow> \<lparr>outcome = Inl e, payload = Some (written w'), warnings = log\<rparr>
                 | Inr (w', log) \<Rightarrow>
                     \<lparr>outcome = Inr (crc w'), payload = Some (written w'), warnings = log\<rparr>)))"

text \<open>The property of a codec that the specification asks for: decoding inverts encoding.\<close>

definition codec_round_trip :: "codec \<Rightarrow> bool" where
  "codec_round_trip cd = (\<forall>c k. to_key cd c = Some k \<longrightarrow> from_key cd k = c)"

section \<open>Example inputs\<close>

text \<open>
  A configuration for the concrete runs below: the tensor regions in their order of
  classification, two worker threads, keys and integers of four bytes.
\<close>

definition example_config :: config where
  "example_config =
     \<lparr>I_BASE = 0x10000000, QK_BASE = 0x20000000, QI_BASE = 0x30000000, QO_BASE = 0x40000000,
      PIV_BASE = 0x50000000, KM_BASE = 0x60000000, WO_BASE = 0x70000000, IV_BASE = 0x80000000,
      GM_BASE = 0x90000000, WV_BASE = 0xA0000000, TILE_BASE = 0x10000000, NUM_THREADS = 2,
      SIZE_KEY = 4, SIZE_INT = 4, debug = False\<rparr>"

text \<open>
  Environments of the writers for the concrete runs: one where every call of zlib succeeds
  and one where the file cannot be opened, and a stand-in for zlib's checksum (no property
  below depends on the checksum computed).
\<close>

definition gz_all_ok :: gz_env where
  "gz_all_ok = \<lparr>open_ok = True, write_ok = (\<lambda>n. True)\<rparr>"

definition gz_no_open :: gz_env where
  "gz_no_open = \<lparr>open_ok = False, write_ok = (\<lambda>n. True)\<rparr>"

definition example_crc :: "u32 \<Rightarrow> u8 list \<Rightarrow> u32" where
  "example_crc c bs = c + word_of_nat (length bs)"

section \<open>Properties of the codec of the specification\<close>

lemma key_fields:
  fixes a b d :: int
  assumes w: "3 * w \<le> 32"
  defines "k \<equiv> (push_bit (2 * w) (word_of_int (take_bit w a))
                   OR push_bit w (word_of_int (take_bit w b))
                   OR word_of_int (take_bit w d) :: u32)"
  shows "uint (take_bit w (drop_bit (2 * w) k)) = take_bit w a"
    and "uint (take_bit w (drop_bit w k)) = take_bit w b"
    and "uint (take_bit w k) = take_bit w d"
proof -
  show "uint (take_bit w (drop_bit (2 * w) k)) = take_bit w a"
    unfolding k_def by (rule bit_eqI) (use w in \<open>auto simp add: bit_simps\<close>)
  show "uint (take_bit w (drop_bit w k)) = take_bit w b"
    unfolding k_def by (rule bit_eqI) (use w in \<open>auto simp add: bit_simps\<close>)
  show "uint (take_bit w k) = take_bit w d"
    unfolding k_def by (rule bit_eqI) (use w in \<open>auto simp add: bit_simps\<close>)
qed

lemma Coord3D_from_to_key:
  assumes w: "3 * w \<le> 32" and k: "Coord3D_to_key w c = Some k"
  shows "Coord3D_from_key w k = c"
proof -
  obtain a b d where c: "c = Coord3D a b d" by (cases c)
  from k c have ib: "in_budget w a" "in_budget w b" "in_budget w d"
    and kk: "k = push_bit (2 * w) (word_of_int a) OR push_bit w (word_of_int b) OR word_of_int d"
    by (auto simp: Coord3D_to_key_def split: if_splits)
  have ta: "take_bit w a = a" "take_bit w b = b" "take_bit w d = d"
    using ib by (simp_all add: in_budget_def take_bit_int_eq_self)
  show ?thesis
    using key_fields [OF w, of a b d] unfolding ta kk c Coord3D_from_key_def by simp
qed

lemma spec_codec_round_trip: "3 * w \<le> 32 \<Longrightarrow> codec_round_trip (spec_codec w)"
  by (simp add: codec_round_trip_def spec_codec_def Coord3D_from_to_key)

text \<open>
  C9. Round trip of the codec, for the codec modelled from the specification with any
  field width \<open>w\<close> that fits three fields into 32 bits: for every stride \<open>s > 0\<close> the
  quantization of a coordinate \<open>c\<close> has a value \<open>q\<close>; when \<open>q\<close> is representable
  (\<open>to_key\<close> returns a key \<open>k\<close>), \<open>from_key k\<close> is \<open>q\<close> again; and two representable
  coordinates are equal if and only if their keys are.
\<close>

theorem spec_codec_round_trip_quantized:
  assumes "3 * w \<le> 32" and "0 < s"
  shows "(\<exists>q. quantized (spec_codec w) c s = Some q \<and>
            (\<forall>k. to_key (spec_codec w) q = Some k \<longrightarrow> from_key (spec_codec w) k = q)) \<and>
         (\<forall>c1 c2 k1 k2. to_key (spec_codec w) c1 = Some k1 \<longrightarrow> to_key (spec_codec w) c2 = Some k2 \<longrightarrow>
            (c1 = c2 \<longleftrightarrow> k1 = k2))"
proof (intro conjI allI impI)
  show "\<exists>q. quantized (spec_codec w) c s = Some q \<and>
          (\<forall>k. to_key (spec_codec w) q = Some k \<longrightarrow> from_key (spec_codec w) k = q)"
    using assms by (simp add: spec_codec_def Coord3D_quantized_def Coord3D_from_to_key)
next
  fix c1 c2 k1 k2
  assume k1: "to_key (spec_codec w) c1 = Some k1" and k2: "to_key (spec_codec w) c2 = Some k2"
  have d: "Coord3D_from_key w k1 = c1" "Coord3D_from_key w k2 = c2"
    using k1 k2 assms(1) by (simp_all add: spec_codec_def Coord3D_from_to_key)
  show "c1 = c2 \<longleftrightarrow> k1 = k2"
  proof
    assume "c1 = c2"
    with k1 k2 have "Some k1 = Some k2" by simp
    then show "k1 = k2" by simp
  next
    assume "k1 = k2"
    with d show "c1 = c2" by simp
  qed
qed

theorem spec_codec_round_trip_quantized_witness:
  "quantized (spec_codec 10) (Coord3D 5 7 9) 2 = Some (Coord3D 2 3 4) \<and>
   to_key (spec_codec 10) (Coord3D 2 3 4) = Some 2100228 \<and>
   from_key (spec_codec 10) 2100228 = Coord3D 2 3 4 \<and>
   to_key (spec_codec 10) (Coord3D 2 3 5) = Some 2100229 \<and>
   Coord3D 2 3 4 \<noteq> Coord3D 2 3 5"
  using spec_codec_round_trip_quantized [of 10 2 "Coord3D 5 7 9"]
  by (simp add: spec_codec_def Coord3D_quantized_def Coord3D_to_key_def in_budget_def
        Coord3D_from_key_def signed_divide_int_def)

section \<open>Properties of the query construction\<close>

lemma int_of_size_small: "n < 2 ^ 31 \<Longrightarrow> int_of_size n = int n"
proof -
  assume "n < 2 ^ 31"
  then have "int n < 2 ^ 31" by simp
  moreover have "(word_of_nat n :: 32 word) = word_of_int (int n)" by simp
  then have "int_of_size n = signed_take_bit 31 (int n)"
    unfolding int_of_size_def by (simp only: sint_sbintrunc') simp
  ultimately show ?thesis by (simp add: signed_take_bit_int_eq_self)
qed

lemma fold_row_length:
  "length (fold (\<lambda>i ys. ys[g i := v i]) is xs) = length xs"
  by (induction "is" arbitrary: xs) auto

lemma fold_row_nth:
  "j < length xs \<Longrightarrow> fold (\<lambda>i ys. ys[b + i := v i]) [0..<n] xs ! j =
     (if b \<le> j \<and> j < b + n then v (j - b) else xs ! j)"
proof (induction n)
  case 0
  then show ?case by auto
next
  case (Suc n)
  let ?ys = "fold (\<lambda>i ys. ys[b + i := v i]) [0..<n] xs"
  have len: "length ?ys = length xs" by (rule fold_row_length)
  show ?case
  proof (cases "j = b + n")
    case True
    then show ?thesis using Suc.prems len by simp
  next
    case False
    then have "(?ys[b + n := v n]) ! j = ?ys ! j" by simp
    then show ?thesis using Suc False by auto
  qed
qed

lemma fold_rows_length:
  "length (fold (\<lambda>o'. fold (\<lambda>i ys. ys[o' * U + i := v o' i]) [0..<U]) os xs) = length xs"
  by (induction os arbitrary: xs) (auto simp: fold_row_length)

lemma div_mod_row: "K * U \<le> j \<Longrightarrow> j < K * U + U \<Longrightarrow> j div U = K \<and> j mod U = j - K * (U::nat)"
proof -
  assume a: "K * U \<le> j" "j < K * U + U"
  define r where "r = j - K * U"
  have j: "j = r + K * U" and r: "r < U" using a by (auto simp: r_def)
  show ?thesis unfolding j using r by simp
qed

lemma fold_rows_nth:
  assumes "j < length xs"
  shows "fold (\<lambda>o'. fold (\<lambda>i ys. ys[o' * U + i := v o' i]) [0..<U]) [0..<K] xs ! j =
     (if j < K * U then v (j div U) (j mod U) else xs ! j)"
proof (induction K)
  case 0
  then show ?case by simp
next
  case (Suc K)
  show ?case
    using assms div_mod_row[of K U j] by (auto simp: Suc fold_row_nth fold_rows_length)
qed


lemma proj_inner:
  "qry_keys (fold (query_step u offs oi) is r) =
     fold (\<lambda>i ys. ys[oi * length u + i := \<lparr>coord = coord_add (coord (u ! i)) (offs ! oi), orig_idx = orig_idx (u ! i)\<rparr>]) is (qry_keys r)"
  "qry_in_idx (fold (query_step u offs oi) is r) =
     fold (\<lambda>i ys. ys[oi * length u + i := int_of_size i]) is (qry_in_idx r)"
  "qry_off_idx (fold (query_step u offs oi) is r) =
     fold (\<lambda>i ys. ys[oi * length u + i := int_of_size oi]) is (qry_off_idx r)"
  "wt_offsets (fold (query_step u offs oi) is r) =
     fold (\<lambda>i ys. ys[oi * length u + i := offs ! oi]) is (wt_offsets r)"
  by (induction "is" arbitrary: r; simp add: query_step_def Let_def)+

lemma proj_outer:
  "qry_keys (fold (\<lambda>oi. fold (query_step u offs oi) is) os r) =
     fold (\<lambda>oi. fold (\<lambda>i ys. ys[oi * length u + i := \<lparr>coord = coord_add (coord (u ! i)) (offs ! oi), orig_idx = orig_idx (u ! i)\<rparr>]) is) os (qry_keys r)"
  "qry_in_idx (fold (\<lambda>oi. fold (query_step u offs oi) is) os r) =
     fold (\<lambda>oi. fold (\<lambda>i ys. ys[oi * length u + i := int_of_size i]) is) os (qry_in_idx r)"
  "qry_off_idx (fold (\<lambda>oi. fold (query_step u offs oi) is) os r) =
     fold (\<lambda>oi. fold (\<lambda>i ys. ys[oi * length u + i := int_of_size oi]) is) os (qry_off_idx r)"
  "wt_offsets (fold (\<lambda>oi. fold (query_step u offs oi) is) os r) =
     fold (\<lambda>oi. fold (\<lambda>i ys. ys[oi * length u + i := offs ! oi]) is) os (wt_offsets r)"
  by (induction os arbitrary: r; simp add: proj_inner)+

lemma build_lengths:
  "length (qry_keys (build_coordinate_queries ic0 c0 u stride offs)) = length u * length offs"
  "length (qry_in_idx (build_coordinate_queries ic0 c0 u stride offs)) = length u * length offs"
  "length (qry_off_idx (build_coordinate_queries ic0 c0 u stride offs)) = length u * length offs"
  "length (wt_offsets (build_coordinate_queries ic0 c0 u stride offs)) = length u * length offs"
  by (simp_all add: build_coordinate_queries_def Let_def proj_outer fold_rows_length)

lemma build_nth:
  assumes "oi < length offs" "i < length u"
  shows "qry_keys (build_coordinate_queries ic0 c0 u stride offs) ! (oi * length u + i) =
           \<lparr>coord = coord_add (coord (u ! i)) (offs ! oi), orig_idx = orig_idx (u ! i)\<rparr>"
    and "qry_in_idx (build_coordinate_queries ic0 c0 u stride offs) ! (oi * length u + i) = int_of_size i"
    and "qry_off_idx (build_coordinate_queries ic0 c0 u stride offs) ! (oi * length u + i) = int_of_size oi"
    and "wt_offsets (build_coordinate_queries ic0 c0 u stride offs) ! (oi * length u + i) = offs ! oi"
proof -
  have "oi * length u + i < Suc oi * length u" using assms by simp
  also have "\<dots> \<le> length offs * length u" using assms(1) by (metis Suc_leI mult_le_mono1)
  finally have lt: "oi * length u + i < length offs * length u" .
  then have lt': "oi * length u + i < length u * length offs" by (simp add: mult.commute)
  have dm: "(oi * length u + i) div length u = oi" "(oi * length u + i) mod length u = i"
    using assms div_mod_row [of oi "length u" "oi * length u + i"] by simp_all
  show "qry_keys (build_coordinate_queries ic0 c0 u stride offs) ! (oi * length u + i) =
           \<lparr>coord = coord_add (coord (u ! i)) (offs ! oi), orig_idx = orig_idx (u ! i)\<rparr>"
    using lt lt' dm by (simp add: build_coordinate_queries_def Let_def proj_outer fold_rows_nth)
  show "qry_in_idx (build_coordinate_queries ic0 c0 u stride offs) ! (oi * length u + i) = int_of_size i"
    using lt lt' dm by (simp add: build_coordinate_queries_def Let_def proj_outer fold_rows_nth)
  show "qry_off_idx (build_coordinate_queries ic0 c0 u stride offs) ! (oi * length u + i) = int_of_size oi"
    using lt lt' dm by (simp add: build_coordinate_queries_def Let_def proj_outer fold_rows_nth)
  show "wt_offsets (build_coordinate_queries ic0 c0 u stride offs) ! (oi * length u + i) = offs ! oi"
    using lt lt' dm by (simp add: build_coordinate_queries_def Let_def proj_outer fold_rows_nth)
qed

text \<open>
  C4. Query completeness: for \<open>U\<close> unique coordinates and \<open>K\<close> offsets (both within the
  range of \<^verbatim>\<open>int\<close>), \<^verbatim>\<open>build_coordinate_queries\<close> returns \<open>U * K\<close> queries, and the
  query at global index \<open>o * U + i\<close> carries the coordinate \<open>unique_coords[i] + offsets[o]\<close>,
  hence its packed key under any codec, with \<^verbatim>\<open>qry_in_idx\<close> \<open>i\<close> and \<^verbatim>\<open>qry_off_idx\<close>
  \<open>o\<close>.
\<close>

theorem build_coordinate_queries_complete:
  assumes "length uniq_coords \<le> 2 ^ 31" and "length off_coords \<le> 2 ^ 31"
  shows "length (qry_keys (build_coordinate_queries ic0 c0 uniq_coords stride off_coords))
           = length uniq_coords * length off_coords \<and>
         length (qry_in_idx (build_coordinate_queries ic0 c0 uniq_coords stride off_coords))
           = length uniq_coords * length off_coords \<and>
         length (qry_off_idx (build_coordinate_queries ic0 c0 uniq_coords stride off_coords))
           = length uniq_coords * length off_coords \<and>
         (\<forall>oi < length off_coords. \<forall>i < length uniq_coords.
            coord (qry_keys (build_coordinate_queries ic0 c0 uniq_coords stride off_coords)
                     ! (oi * length uniq_coords + i))
              = coord_add (coord (uniq_coords ! i)) (off_coords ! oi) \<and>
            to_key cd (coord (qry_keys (build_coordinate_queries ic0 c0 uniq_coords stride off_coords)
                     ! (oi * length uniq_coords + i)))
              = to_key cd (coord_add (coord (uniq_coords ! i)) (off_coords ! oi)) \<and>
            qry_in_idx (build_coordinate_queries ic0 c0 uniq_coords stride off_coords)
                     ! (oi * length uniq_coords + i) = int i \<and>
            qry_off_idx (build_coordinate_queries ic0 c0 uniq_coords stride off_coords)
                     ! (oi * length uniq_coords + i) = int oi)"
proof (intro conjI allI impI)
  fix oi i
  assume oi: "oi < length off_coords" and i: "i < length uniq_coords"
  have "i < 2 ^ 31" "oi < 2 ^ 31" using assms oi i by simp_all
  then have c: "int_of_size i = int i" "int_of_size oi = int oi"
    by (simp_all add: int_of_size_small)
  show "coord (qry_keys (build_coordinate_queries ic0 c0 uniq_coords stride off_coords)
                     ! (oi * length uniq_coords + i))
              = coord_add (coord (uniq_coords ! i)) (off_coords ! oi)"
    by (simp add: build_nth [OF oi i])
  then show "to_key cd (coord (qry_keys (build_coordinate_queries ic0 c0 uniq_coords stride off_coords)
                     ! (oi * length uniq_coords + i)))
              = to_key cd (coord_add (coord (uniq_coords ! i)) (off_coords ! oi))"
    by simp
  show "qry_in_idx (build_coordinate_queries ic0 c0 uniq_coords stride off_coords)
                     ! (oi * length uniq_coords + i) = int i"
    by (simp add: build_nth [OF oi i] c)
  show "qry_off_idx (build_coordinate_queries ic0 c0 uniq_coords stride off_coords)
                     ! (oi * length uniq_coords + i) = int oi"
    by (simp add: build_nth [OF oi i] c)
qed (simp_all add: build_lengths)

theorem build_coordinate_queries_complete_witness:
  "length [\<lparr>coord = Coord3D 0 0 0, orig_idx = 0\<rparr>, \<lparr>coord = Coord3D 1 0 0, orig_idx = 1\<rparr>] \<le> 2 ^ 31 \<and>
   length [Coord3D 1 0 0] \<le> 2 ^ 31 \<and>
   length (qry_keys (build_coordinate_queries \<lparr>coord = Coord3D 9 9 9, orig_idx = 7\<rparr> (Coord3D 9 9 9)
            [\<lparr>coord = Coord3D 0 0 0, orig_idx = 0\<rparr>, \<lparr>coord = Coord3D 1 0 0, orig_idx = 1\<rparr>] 1 [Coord3D 1 0 0])) = 2 \<and>
   to_key (spec_codec 10) (coord (qry_keys (build_coordinate_queries \<lparr>coord = Coord3D 9 9 9, orig_idx = 7\<rparr> (Coord3D 9 9 9)
            [\<lparr>coord = Coord3D 0 0 0, orig_idx = 0\<rparr>, \<lparr>coord = Coord3D 1 0 0, orig_idx = 1\<rparr>] 1 [Coord3D 1 0 0]) ! 1))
     = Some 2097152 \<and>
   qry_in_idx (build_coordinate_queries \<lparr>coord = Coord3D 9 9 9, orig_idx = 7\<rparr> (Coord3D 9 9 9)
            [\<lparr>coord = Coord3D 0 0 0, orig_idx = 0\<rparr>, \<lparr>coord = Coord3D 1 0 0, orig_idx = 1\<rparr>] 1 [Coord3D 1 0 0]) ! 1 = 1"
  using build_coordinate_queries_complete [of
      "[\<lparr>coord = Coord3D 0 0 0, orig_idx = 0\<rparr>, \<lparr>coord = Coord3D 1 0 0, orig_idx = 1\<rparr>]" "[Coord3D 1 0 0]"
      "\<lparr>coord = Coord3D 9 9 9, orig_idx = 7\<rparr>" "Coord3D 9 9 9" 1 "spec_codec 10"]
  by (simp add: coord_add_def spec_codec_def Coord3D_to_key_def in_budget_def)

section \<open>Properties of the trace recording\<close>

lemma addr_to_tensor_Some: "\<exists>t. addr_to_tensor cfg a = Some t"
  by (simp add: addr_to_tensor_def forward_at_def TENSORS_def)

lemma record_access_PVT:
  "\<exists>e. record_access cfg ''PVT'' t ''W'' a = Some e"
  using addr_to_tensor_Some [of cfg a]
  by (auto simp: record_access_def forward_at_def PHASES_def OPS_def)

lemma record_access_LKP_R:
  "\<exists>t'. record_access cfg ''LKP'' t ''R'' a = Some \<lparr>phase = 4, thread_id = word_of_nat t, op = 0, tensor = t', addr = a\<rparr>"
  using addr_to_tensor_Some [of cfg a]
  by (auto simp: record_access_def forward_at_def PHASES_def OPS_def)

lemma record_access_LKP_W:
  "\<exists>t'. record_access cfg ''LKP'' t ''W'' a = Some \<lparr>phase = 4, thread_id = word_of_nat t, op = 1, tensor = t', addr = a\<rparr>"
  using addr_to_tensor_Some [of cfg a]
  by (auto simp: record_access_def forward_at_def PHASES_def OPS_def)

lemma inverse_at_OPS_1: "inverse_at OPS 1 = Some ''W''"
  by (simp add: inverse_at_def OPS_def)

section \<open>Properties of the tiling\<close>

declare tiles_loop.simps [simp del]

lemma tile_slice:
  "start < length xs \<Longrightarrow> 0 < step \<Longrightarrow>
   map ((!) xs) [start..<min (start + step) (length xs)] = take step (drop start xs)"
proof (rule nth_equalityI)
  assume a: "start < length xs" "0 < step"
  show "length (map ((!) xs) [start..<min (start + step) (length xs)]) = length (take step (drop start xs))"
    using a by (auto simp add: min_def)
  fix i
  assume "i < length (map ((!) xs) [start..<min (start + step) (length xs)])"
  then have i: "i < step" "start + i < length xs" using a by (simp_all add: min_def split: if_splits)
  then show "map ((!) xs) [start..<min (start + step) (length xs)] ! i = take step (drop start xs) ! i"
    by (simp add: min_def)
qed

lemma tiles_loop_result:
  assumes "0 < step"
  shows "\<exists>T tr'. tiles_loop cfg uniq step start (res, tr)
            = Some (res\<lparr>tiles := tiles res @ T, pivots := pivots res @ map (\<lambda>t. t ! 0) T\<rparr>, tr') \<and>
           concat T = drop start uniq \<and> (\<forall>t \<in> set T. t \<noteq> [] \<and> length t \<le> step) \<and>
           (start < length uniq \<and> length uniq \<le> start + step \<longrightarrow> T = [drop start uniq])"
proof (induction "length uniq - start" arbitrary: start res tr rule: less_induct)
  case less
  show ?case
  proof (cases "start < length uniq")
    case False
    then have "tiles_loop cfg uniq step start (res, tr) = Some (res, tr)"
      using assms by (simp add: tiles_loop.simps)
    then show ?thesis using False by (intro exI [of _ "[]"] exI [of _ tr]) simp
  next
    case True
    let ?tile = "take step (drop start uniq)"
    have ne: "?tile \<noteq> []" using True assms by simp
    let ?res' = "res\<lparr>tiles := tiles res @ [?tile], pivots := pivots res @ [?tile ! 0]\<rparr>"
    obtain e where e: "record_access cfg ''PVT'' 0 ''W''
         (PIV_BASE cfg + word_of_nat (length (pivots ?res') - 1) * SIZE_KEY cfg) = Some e"
      using record_access_PVT by blast
    have step1: "tiles_loop cfg uniq step start (res, tr)
        = tiles_loop cfg uniq step (start + step) (?res', tr @ [e])"
      apply (subst tiles_loop.simps)
      unfolding Let_def tile_slice [OF True assms]
      using True assms e by simp
    have "length uniq - (start + step) < length uniq - start" using True assms by simp
    from less [OF this, of ?res' "tr @ [e]"]
    obtain T tr' where T: "tiles_loop cfg uniq step (start + step) (?res', tr @ [e])
            = Some (?res'\<lparr>tiles := tiles ?res' @ T, pivots := pivots ?res' @ map (\<lambda>t. t ! 0) T\<rparr>, tr')"
      "concat T = drop (start + step) uniq" "\<forall>t \<in> set T. t \<noteq> [] \<and> length t \<le> step"
      by blast
    have last: "length uniq \<le> start + step \<Longrightarrow> T = []"
    proof -
      assume "length uniq \<le> start + step"
      then have "concat T = []" using T(2) by simp
      then show "T = []" using T(3) by (cases T) auto
    qed
    have cc: "concat (?tile # T) = drop start uniq"
    proof -
      have "drop (start + step) uniq = drop step (drop start uniq)"
        by (simp add: add.commute)
      with T(2) have "concat T = drop step (drop start uniq)" by simp
      then show ?thesis by (simp only: concat.simps append_take_drop_id)
    qed
    show ?thesis
      apply (rule exI [of _ "?tile # T"], rule exI [of _ tr'])
      using step1 T ne cc last by (auto simp: add.commute)
  qed
qed

lemma size_of_int_small: "0 \<le> i \<Longrightarrow> i < 2 ^ 31 \<Longrightarrow> size_of_int i = nat i"
proof -
  assume a: "0 \<le> i" "i < 2 ^ 31"
  have "(2::int) ^ 31 \<le> 2 ^ 64" by simp
  with a have "i < 2 ^ 64" by linarith
  with a show ?thesis by (simp add: size_of_int_def)
qed

text \<open>
  C5. Tiling coverage, for a sequence and a tile size within the range of \<^verbatim>\<open>int\<close>:
  \<^verbatim>\<open>create_tiles_and_pivots\<close> returns tiles whose concatenation in order is the input, one
  pivot per tile, every tile non-empty and its pivot its first element; for a non-empty
  input a tile size \<open>\<le> 0\<close> yields the single tile that is the input. The empty input
  yields no tile at all, whatever the tile size.
\<close>

theorem create_tiles_and_pivots_coverage:
  assumes "length uniq_coords < 2 ^ 31" and "tile_size_param < 2 ^ 31"
  shows "\<exists>r tr. create_tiles_and_pivots cfg uniq_coords tile_size_param = Some (r, tr) \<and>
           concat (tiles r) = uniq_coords \<and> length (pivots r) = length (tiles r) \<and>
           (\<forall>t < length (tiles r). tiles r ! t \<noteq> [] \<and> pivots r ! t = tiles r ! t ! 0) \<and>
           (tile_size_param \<le> 0 \<and> uniq_coords \<noteq> [] \<longrightarrow> tiles r = [uniq_coords]) \<and>
           (uniq_coords = [] \<longrightarrow> tiles r = [])"
proof (cases "uniq_coords = []")
  case True
  then show ?thesis by (simp add: create_tiles_and_pivots_def)
next
  case False
  define cts where "cts = (if tile_size_param \<le> 0 then int_of_size (length uniq_coords) else tile_size_param)"
  have n: "int_of_size (length uniq_coords) = int (length uniq_coords)"
    using assms(1) by (rule int_of_size_small)
  have pos: "0 < cts" "cts < 2 ^ 31"
    using False assms n by (auto simp: cts_def)
  then have step: "size_of_int cts = nat cts" "0 < nat cts"
    by (simp_all add: size_of_int_small)
  have eq: "create_tiles_and_pivots cfg uniq_coords tile_size_param
      = tiles_loop cfg uniq_coords (nat cts) 0 (\<lparr>tiles = [], pivots = []\<rparr>, [])"
    using False pos step by (simp add: create_tiles_and_pivots_def Let_def cts_def)
  from tiles_loop_result [OF step(2), of cfg uniq_coords 0 "\<lparr>tiles = [], pivots = []\<rparr>" "[]"]
  obtain T tr' where T: "tiles_loop cfg uniq_coords (nat cts) 0 (\<lparr>tiles = [], pivots = []\<rparr>, [])
        = Some (\<lparr>tiles = T, pivots = map (\<lambda>t. t ! 0) T\<rparr>, tr')"
      "concat T = uniq_coords" "\<forall>t \<in> set T. t \<noteq> [] \<and> length t \<le> nat cts"
      "length uniq_coords \<le> nat cts \<longrightarrow> T = [uniq_coords]"
    using False by auto
  have one: "tile_size_param \<le> 0 \<Longrightarrow> T = [uniq_coords]"
    using T(4) n by (simp add: cts_def)
  show ?thesis
    apply (rule exI [of _ "\<lparr>tiles = T, pivots = map (\<lambda>t. t ! 0) T\<rparr>"], rule exI [of _ tr'])
    using eq T one False by simp
qed

theorem create_tiles_and_pivots_coverage_witness:
  "length [\<lparr>coord = Coord3D 0 0 0, orig_idx = 0\<rparr>, \<lparr>coord = Coord3D 1 0 0, orig_idx = 1\<rparr>,
           \<lparr>coord = Coord3D 2 0 0, orig_idx = 5\<rparr>] < 2 ^ 31 \<and> (2::int) < 2 ^ 31 \<and>
   map_option fst (create_tiles_and_pivots example_config
        [\<lparr>coord = Coord3D 0 0 0, orig_idx = 0\<rparr>, \<lparr>coord = Coord3D 1 0 0, orig_idx = 1\<rparr>,
         \<lparr>coord = Coord3D 2 0 0, orig_idx = 5\<rparr>] 2)
     = Some \<lparr>tiles = [[\<lparr>coord = Coord3D 0 0 0, orig_idx = 0\<rparr>, \<lparr>coord = Coord3D 1 0 0, orig_idx = 1\<rparr>],
                        [\<lparr>coord = Coord3D 2 0 0, orig_idx = 5\<rparr>]],
             pivots = [\<lparr>coord = Coord3D 0 0 0, orig_idx = 0\<rparr>, \<lparr>coord = Coord3D 2 0 0, orig_idx = 5\<rparr>]\<rparr>"
  using create_tiles_and_pivots_coverage [of
      "[\<lparr>coord = Coord3D 0 0 0, orig_idx = 0\<rparr>, \<lparr>coord = Coord3D 1 0 0, orig_idx = 1\<rparr>,
        \<lparr>coord = Coord3D 2 0 0, orig_idx = 5\<rparr>]" 2 example_config]
  by (simp add: create_tiles_and_pivots_def tiles_loop.simps size_of_int_def example_config_def
       record_access_def forward_at_def PHASES_def OPS_def addr_to_tensor_def TENSORS_def Let_def
       upt_rec [of 0] upt_rec [of 1] upt_rec [of 2])

text \<open>
  The claim as stated, with a single tile for every sequence when the tile size is
  \<open>\<le> 0\<close>, fails on the empty sequence: no tile is returned.
\<close>

theorem create_tiles_and_pivots_empty_counterexample:
  "create_tiles_and_pivots example_config [] 0 = Some (\<lparr>tiles = [], pivots = []\<rparr>, []) \<and>
   length (tiles \<lparr>tiles = [], pivots = []\<rparr>) \<noteq> 1"
  by (simp add: create_tiles_and_pivots_def)

section \<open>Properties of the deduplication\<close>

lemma traverse_Some:
  "(\<And>x. x \<in> set xs \<Longrightarrow> \<exists>y. f x = Some y) \<Longrightarrow> \<exists>ys. traverse f xs = Some ys"
proof (induction xs)
  case Nil
  then show ?case by simp
next
  case (Cons x xs)
  from Cons.prems [of x] obtain y where "f x = Some y" by auto
  moreover from Cons obtain ys where "traverse f xs = Some ys" by auto
  ultimately show ?case by simp
qed

lemma traverse_nth:
  "traverse f xs = Some ys \<Longrightarrow> length ys = length xs \<and> (\<forall>i<length xs. f (xs ! i) = Some (ys ! i))"
proof (induction xs arbitrary: ys)
  case Nil
  then show ?case by simp
next
  case (Cons x xs)
  then show ?case
    by (auto split: option.splits simp: nth_Cons split: nat.splits)
qed

lemma record_access_RDX:
  "\<exists>e. record_access cfg ''RDX'' t ''R'' a = Some e"
  "\<exists>e. record_access cfg ''RDX'' t ''W'' a = Some e"
  using addr_to_tensor_Some [of cfg a]
  by (auto simp: record_access_def forward_at_def PHASES_def OPS_def)

lemma radix_sort_with_memtrace_Some:
  assumes "0 < NUM_THREADS cfg"
  shows "\<exists>tr. radix_sort_with_memtrace cfg arr b = Some (arr, tr)"
proof -
  have r: "\<exists>y. radix_read cfg b i = Some y" for i
    using assms record_access_RDX(1) [of cfg "i mod NUM_THREADS cfg" "b + word_of_nat i * SIZE_KEY cfg"]
    by (auto simp: radix_read_def thread_of_def)
  have w: "\<exists>y. radix_read_write cfg b i = Some y" for i
    using assms record_access_RDX(1) [of cfg "i mod NUM_THREADS cfg" "b + word_of_nat i * SIZE_KEY cfg"]
      record_access_RDX(2) [of cfg "i mod NUM_THREADS cfg" "b + word_of_nat i * SIZE_KEY cfg"]
    by (auto simp: radix_read_write_def thread_of_def inverse_at_def OPS_def)
  have p: "\<exists>y. radix_pass cfg b N = Some y" for N
    using traverse_Some [of "[0..<N]" "radix_read cfg b", OF r]
      traverse_Some [of "[0..<N]" "radix_read_write cfg b", OF w]
    by (auto simp: radix_pass_def)
  show ?thesis
    using traverse_Some [of "[0..<4]" "\<lambda>p. radix_pass cfg b (length arr)", OF p]
    by (auto simp: radix_sort_with_memtrace_def)
qed

lemma radix_sort_with_memtrace_fst:
  "radix_sort_with_memtrace cfg arr b = Some (r, tr) \<Longrightarrow> r = arr"
  by (auto simp: radix_sort_with_memtrace_def split: if_splits Option.bind_splits)

lemma idx_keys_from_Some:
  "list_all2 (\<lambda>c k. \<exists>q. quantized cd c stride = Some q \<and> to_key cd q = Some k) cs ks \<Longrightarrow>
   idx_keys_from cd stride idx cs = Some (zip ks (map int_of_size [idx..<idx + length ks]))"
proof (induction cs arbitrary: idx ks)
  case Nil
  then show ?case by simp
next
  case (Cons c cs)
  then obtain k ks' where ks: "ks = k # ks'" by (cases ks) auto
  have u: "[idx..<idx + length ks] = idx # [Suc idx..<Suc idx + length ks']"
    using upt_conv_Cons [of idx "idx + length ks"] by (simp add: ks)
  from Cons.prems ks obtain q where q: "quantized cd c stride = Some q" "to_key cd q = Some k"
    and rest: "list_all2 (\<lambda>c k. \<exists>q. quantized cd c stride = Some q \<and> to_key cd q = Some k) cs ks'"
    by auto
  show ?case
    unfolding u by (simp add: q Cons.IH [OF rest] ks)
qed

lemma idx_keys_from_keys:
  "idx_keys_from cd stride idx cs = Some ps \<Longrightarrow>
   list_all2 (\<lambda>c k. \<exists>q. quantized cd c stride = Some q \<and> to_key cd q = Some k) cs (map fst ps)"
proof (induction cs arbitrary: idx ps)
  case Nil
  then show ?case by simp
next
  case (Cons c cs)
  then show ?case by (auto split: option.splits)
qed

text \<open>The scan emits, for a key-sorted list, the first pair of every key other than the last emitted.\<close>

lemma scan_unique_sel:
  assumes "sorted (map fst ps)" and "\<forall>q \<in> set ps. last_key \<le> fst q"
  shows "\<exists>sel. scan_unique cd last_key ps = map (\<lambda>p. \<lparr>coord = from_key cd (fst p), orig_idx = snd p\<rparr>) sel \<and>
           sorted_wrt (<) (map fst sel) \<and> set (map fst sel) = set (map fst ps) - {last_key} \<and>
           (\<forall>q \<in> set sel. q = hd (filter (\<lambda>r. fst r = fst q) ps))"
  using assms
proof (induction ps arbitrary: last_key)
  case Nil
  then show ?case by simp
next
  case (Cons p ps)
  have srt: "sorted (map fst ps)" and ge: "\<forall>q \<in> set ps. fst p \<le> fst q"
    using Cons.prems(1) by auto
  show ?case
  proof (cases "fst p = last_key")
    case True
    from Cons.IH [OF srt, of last_key] Cons.prems(2)
    obtain sel where sel: "scan_unique cd last_key ps = map (\<lambda>p. \<lparr>coord = from_key cd (fst p), orig_idx = snd p\<rparr>) sel"
      "sorted_wrt (<) (map fst sel)" "set (map fst sel) = set (map fst ps) - {last_key}"
      "\<forall>q \<in> set sel. q = hd (filter (\<lambda>r. fst r = fst q) ps)"
      by auto
    have ne: "\<forall>q \<in> set sel. fst q \<noteq> fst p"
      using sel(3) True by auto
    show ?thesis
      apply (rule exI [of _ sel])
      using sel True ne by auto
  next
    case False
    from Cons.IH [OF srt, of "fst p"] ge
    obtain sel where sel: "scan_unique cd (fst p) ps = map (\<lambda>p. \<lparr>coord = from_key cd (fst p), orig_idx = snd p\<rparr>) sel"
      "sorted_wrt (<) (map fst sel)" "set (map fst sel) = set (map fst ps) - {fst p}"
      "\<forall>q \<in> set sel. q = hd (filter (\<lambda>r. fst r = fst q) ps)"
      by auto
    have lt: "last_key < fst p" using False Cons.prems(2) by (simp add: order.strict_iff_order)
    have mem: "fst q \<in> set (map fst ps) - {fst p}" if "q \<in> set sel" for q
      using that sel(3) by (metis image_eqI set_map)
    have ne: "\<forall>q \<in> set sel. fst q \<noteq> fst p"
      using mem by auto
    have gt: "\<forall>q \<in> set sel. fst p < fst q"
    proof
      fix q assume "q \<in> set sel"
      from mem [OF this] obtain r where "r \<in> set ps" "fst r = fst q" "fst q \<noteq> fst p" by auto
      with ge show "fst p < fst q" by (metis order.strict_iff_order)
    qed
    have ge': "a = fst p" if "(a, b) \<in> set ps" "\<not> fst p < a" for a b
      using that ge by (metis fst_conv order.strict_iff_order)
    have notin: "last_key \<notin> set (map fst ps)"
      using ge lt by auto
    show ?thesis
      apply (rule exI [of _ "p # sel"])
      using sel False ne gt notin ge' by auto
  qed
qed

lemma hd_filter_first:
  "i < length xs \<Longrightarrow> P (xs ! i) \<Longrightarrow> \<forall>j<i. \<not> P (xs ! j) \<Longrightarrow> hd (filter P xs) = xs ! i"
proof (induction xs arbitrary: i)
  case Nil
  then show ?case by simp
next
  case (Cons x xs)
  show ?case
  proof (cases i)
    case 0
    with Cons.prems show ?thesis by simp
  next
    case (Suc i')
    with Cons.prems have "\<not> P x" by auto
    moreover have "hd (filter P xs) = xs ! i'"
      using Cons.prems Suc by (intro Cons.IH) auto
    ultimately show ?thesis using Suc by simp
  qed
qed

lemma dedup_shape:
  fixes ps :: "(u32 \<times> int) list"
  defines "srt \<equiv> sort_key fst ps"
  shows "\<exists>sel. (case srt of [] \<Rightarrow> []
                 | p # rest \<Rightarrow> \<lparr>coord = from_key cd (fst p), orig_idx = snd p\<rparr> # scan_unique cd (fst p) rest)
               = map (\<lambda>p. \<lparr>coord = from_key cd (fst p), orig_idx = snd p\<rparr>) sel \<and>
           sorted_wrt (<) (map fst sel) \<and> set (map fst sel) = set (map fst ps) \<and>
           (\<forall>q \<in> set sel. q = hd (filter (\<lambda>r. fst r = fst q) srt))"
proof (cases srt)
  case Nil
  have "length srt = length ps" unfolding srt_def by simp
  with Nil have "ps = []" by simp
  with Nil show ?thesis by simp
next
  case (Cons p rest)
  have "sorted (map fst srt)" unfolding srt_def by (rule sorted_sort_key)
  then have s: "sorted (map fst (p # rest))" unfolding Cons .
  then have srt': "sorted (map fst rest)" and ge: "\<forall>q \<in> set rest. fst p \<le> fst q"
    by auto
  have "set (map fst srt) = set (map fst ps)" unfolding srt_def by simp
  then have sets: "set (map fst (p # rest)) = set (map fst ps)"
    unfolding Cons .
  from scan_unique_sel [OF srt' ge, of cd]
  obtain sel where sel: "scan_unique cd (fst p) rest = map (\<lambda>p. \<lparr>coord = from_key cd (fst p), orig_idx = snd p\<rparr>) sel"
    "sorted_wrt (<) (map fst sel)" "set (map fst sel) = set (map fst rest) - {fst p}"
    "\<forall>q \<in> set sel. q = hd (filter (\<lambda>r. fst r = fst q) rest)"
    by auto
  have mem: "fst q \<in> set (map fst rest) - {fst p}" if "q \<in> set sel" for q
    using that sel(3) by (metis image_eqI set_map)
  have gt: "\<forall>q \<in> set sel. fst p < fst q"
  proof
    fix q assume "q \<in> set sel"
    from mem [OF this] obtain r where "r \<in> set rest" "fst r = fst q" "fst q \<noteq> fst p" by auto
    with ge show "fst p < fst q" by (metis order.strict_iff_order)
  qed
  have a: "sorted_wrt (<) (map fst (p # sel))" using sel(2) gt by simp
  have b: "set (map fst (p # sel)) = set (map fst ps)"
    using sel(3) sets by auto
  have c: "\<forall>q \<in> set (p # sel). q = hd (filter (\<lambda>r. fst r = fst q) srt)"
    using sel(4) gt by (auto simp: Cons)
  show ?thesis
    apply (rule exI [of _ "p # sel"])
    using a b c sel(1) by (simp add: Cons)
qed


lemma dedup_output:
  fixes ks :: "u32 list" and cd :: codec
  defines "ps \<equiv> zip ks (map int_of_size [0..<length ks])"
  defines "out \<equiv> (case sort_key fst ps of [] \<Rightarrow> []
                 | p # rest \<Rightarrow> \<lparr>coord = from_key cd (fst p), orig_idx = snd p\<rparr> # scan_unique cd (fst p) rest)"
  shows "\<exists>uks. sorted_wrt (<) uks \<and> set uks = set ks \<and>
           map coord out = map (from_key cd) uks \<and>
           map orig_idx out = map (\<lambda>k. snd (hd (filter (\<lambda>r. fst r = k) (sort_key fst ps)))) uks"
proof -
  have ks: "map fst ps = ks" by (simp add: ps_def)
  from dedup_shape [where ps = ps and cd = cd]
  obtain sel where sel: "out = map (\<lambda>p. \<lparr>coord = from_key cd (fst p), orig_idx = snd p\<rparr>) sel"
    "sorted_wrt (<) (map fst sel)" "set (map fst sel) = set ks"
    "\<forall>q \<in> set sel. q = hd (filter (\<lambda>r. fst r = fst q) (sort_key fst ps))"
    unfolding out_def ks by blast
  have "map orig_idx out = map snd sel" by (simp add: sel(1) comp_def)
  also have "\<dots> = map (\<lambda>q. snd (hd (filter (\<lambda>r. fst r = fst q) (sort_key fst ps)))) sel"
    using sel(4) by (intro map_cong) auto
  finally have o: "map orig_idx out = map (\<lambda>k. snd (hd (filter (\<lambda>r. fst r = k) (sort_key fst ps)))) (map fst sel)"
    by (simp add: comp_def)
  have c: "map coord out = map (from_key cd) (map fst sel)" by (simp add: sel(1) comp_def)
  show ?thesis
    apply (rule exI [of _ "map fst sel"])
    using sel(2,3) o c by simp
qed

lemma strict_sorted_length_le:
  fixes uks :: "u32 list"
  assumes "sorted_wrt (<) uks" "set uks = set ks"
  shows "length uks \<le> length ks"
proof -
  have "distinct uks" using assms(1) by (simp add: strict_sorted_iff)
  then have "length uks = card (set ks)" using assms(2) by (metis distinct_card)
  then show ?thesis by (simp add: card_length)
qed

lemma first_pair_of_key:
  fixes ks :: "u32 list"
  assumes "k \<in> set ks"
  defines "ps \<equiv> zip ks (map int_of_size [0..<length ks])"
  shows "\<exists>m<length ks. hd (filter (\<lambda>r. fst r = k) (sort_key fst ps)) = (k, int_of_size m) \<and>
           ks ! m = k \<and> (\<forall>i<length ks. ks ! i = k \<longrightarrow> m \<le> i)"
proof -
  define m where "m = (LEAST i. i < length ks \<and> ks ! i = k)"
  from assms(1) obtain i where "i < length ks \<and> ks ! i = k" by (auto simp: in_set_conv_nth)
  then have m: "m < length ks \<and> ks ! m = k" unfolding m_def by (rule LeastI)
  have least: "m \<le> i" if "i < length ks" "ks ! i = k" for i
    unfolding m_def using that by (intro Least_le) simp
  have len: "length ps = length ks" by (simp add: ps_def)
  have nth: "ps ! j = (ks ! j, int_of_size j)" if "j < length ks" for j
    using that by (simp add: ps_def)
  have "filter (\<lambda>r. fst r = k) (sort_key fst ps) = filter (\<lambda>r. fst r = k) ps"
    by (rule sort_key_stable)
  moreover have "hd (filter (\<lambda>r. fst r = k) ps) = ps ! m"
  proof (rule hd_filter_first)
    show "m < length ps" using m len by simp
    show "fst (ps ! m) = k" using m nth by simp
    show "\<forall>j<m. \<not> fst (ps ! j) = k"
    proof (intro allI impI)
      fix j assume "j < m"
      then have "j < length ks" using m by simp
      with \<open>j < m\<close> least [of j] nth [of j] show "\<not> fst (ps ! j) = k" by auto
    qed
  qed
  ultimately have "hd (filter (\<lambda>r. fst r = k) (sort_key fst ps)) = (k, int_of_size m)"
    using m nth by simp
  with m least show ?thesis by blast
qed

lemma compute_unique_sorted_coords_Some:
  assumes keys: "list_all2 (\<lambda>c k. \<exists>q. quantized cd c stride = Some q \<and> to_key cd q = Some k) in_coords ks"
    and thr: "0 < NUM_THREADS cfg"
    and dbg: "debug cfg \<longrightarrow> codec_round_trip cd"
  shows "\<exists>tr. compute_unique_sorted_coords cfg cd in_coords stride =
           Some ((case sort_key fst (zip ks (map int_of_size [0..<length ks])) of [] \<Rightarrow> []
                 | p # rest \<Rightarrow> \<lparr>coord = from_key cd (fst p), orig_idx = snd p\<rparr> # scan_unique cd (fst p) rest), tr)"
proof -
  let ?ps = "zip ks (map int_of_size [0..<length ks])"
  let ?out = "(case sort_key fst ?ps of [] \<Rightarrow> []
                 | p # rest \<Rightarrow> \<lparr>coord = from_key cd (fst p), orig_idx = snd p\<rparr> # scan_unique cd (fst p) rest)"
  have a: "idx_keys_from cd stride 0 in_coords = Some ?ps"
    using idx_keys_from_Some [OF keys, of 0] by simp
  obtain tr where b: "radix_sort_with_memtrace cfg ks (I_BASE cfg) = Some (ks, tr)"
    using radix_sort_with_memtrace_Some [OF thr] by blast
  have c: "debug_listing cfg cd ?out = Some ()"
  proof (cases "debug cfg")
    case False
    then show ?thesis by (simp add: debug_listing_def)
  next
    case True
    with dbg have rt: "codec_round_trip cd" by simp
    obtain uks where uks: "set uks = set ks" "map coord ?out = map (from_key cd) uks"
      using dedup_output [where cd = cd and ks = ks] by blast
    have "\<exists>y. to_key cd (coord ic) = Some y" if "ic \<in> set ?out" for ic
    proof -
      from that have "coord ic \<in> set (map coord ?out)" by simp
      then obtain k where k: "k \<in> set ks" "coord ic = from_key cd k" using uks by auto
      from k(1) keys obtain q where "to_key cd q = Some k"
        by (auto simp: in_set_conv_nth list_all2_conv_all_nth)
      with rt k(2) show ?thesis by (auto simp: codec_round_trip_def)
    qed
    from traverse_Some [of ?out "\<lambda>ic. to_key cd (coord ic)", OF this]
    show ?thesis using True by (auto simp: debug_listing_def)
  qed
  show ?thesis
    apply (rule exI [of _ tr])
    using c by (simp add: compute_unique_sorted_coords_def a b Let_def)
qed


lemma dedup_entries:
  fixes ks :: "u32 list" and cd :: codec
  defines "ps \<equiv> zip ks (map int_of_size [0..<length ks])"
  defines "out \<equiv> (case sort_key fst ps of [] \<Rightarrow> []
                 | p # rest \<Rightarrow> \<lparr>coord = from_key cd (fst p), orig_idx = snd p\<rparr> # scan_unique cd (fst p) rest)"
  assumes j: "j < length out"
  shows "\<exists>m<length ks. orig_idx (out ! j) = int_of_size m \<and> coord (out ! j) = from_key cd (ks ! m) \<and>
           (\<forall>i<length ks. ks ! i = ks ! m \<longrightarrow> m \<le> i)"
proof -
  obtain uks where uks: "set uks = set ks" "map coord out = map (from_key cd) uks"
    "map orig_idx out = map (\<lambda>k. snd (hd (filter (\<lambda>r. fst r = k) (sort_key fst ps)))) uks"
    using dedup_output [where cd = cd and ks = ks] unfolding out_def ps_def by blast
  have "length (map coord out) = length (map (from_key cd) uks)" by (simp only: uks(2))
  then have len: "length uks = length out" by (simp only: length_map)
  then have "uks ! j \<in> set ks" using j uks(1) by (metis nth_mem)
  from first_pair_of_key [OF this]
  obtain m where m: "m < length ks" "hd (filter (\<lambda>r. fst r = uks ! j) (sort_key fst ps)) = (uks ! j, int_of_size m)"
    "ks ! m = uks ! j" "\<forall>i<length ks. ks ! i = uks ! j \<longrightarrow> m \<le> i"
    unfolding ps_def by blast
  have "orig_idx (out ! j) = map orig_idx out ! j" using j by simp
  also have "\<dots> = snd (hd (filter (\<lambda>r. fst r = uks ! j) (sort_key fst ps)))"
    unfolding uks(3) using j len by simp
  finally have a: "orig_idx (out ! j) = int_of_size m" using m(2) by simp
  have "coord (out ! j) = map coord out ! j" using j by simp
  also have "\<dots> = from_key cd (uks ! j)" unfolding uks(2) using j len by simp
  finally have b: "coord (out ! j) = from_key cd (ks ! m)" using m(3) by simp
  show ?thesis using m(1) a b m(3,4) by auto
qed

text \<open>
  C3. Deduplication, when every input coordinate has a key \<open>ks ! i\<close> (quantization and
  packing return), the thread count is positive and, if the debug listing is on, the codec
  round-trips: \<^verbatim>\<open>compute_unique_sorted_coords\<close> returns a sequence \<open>uniq\<close> with exactly
  one entry per distinct key of the input, in strictly ascending key order (\<open>uks\<close> is
  the strictly sorted list of the distinct keys and entry \<open>j\<close> is decoded from
  \<open>uks ! j\<close>); the \<^verbatim>\<open>orig_idx\<close> of the entry of key \<open>k\<close> is the index carried by the
  first pair of key \<open>k\<close> in the stably key-sorted (key, original index) sequence; and the
  output is no longer than the input. Under a round-tripping codec the key of entry \<open>j\<close>
  is \<open>uks ! j\<close> itself.
\<close>

theorem compute_unique_sorted_coords_dedup:
  assumes keys: "list_all2 (\<lambda>c k. \<exists>q. quantized cd c stride = Some q \<and> to_key cd q = Some k) in_coords ks"
    and thr: "0 < NUM_THREADS cfg"
    and dbg: "debug cfg \<longrightarrow> codec_round_trip cd"
  shows "\<exists>uniq tr uks. compute_unique_sorted_coords cfg cd in_coords stride = Some (uniq, tr) \<and>
           sorted_wrt (<) uks \<and> set uks = set ks \<and>
           map coord uniq = map (from_key cd) uks \<and>
           map orig_idx uniq =
             map (\<lambda>k. snd (hd (filter (\<lambda>r. fst r = k)
                    (sort_key fst (zip ks (map int_of_size [0..<length ks])))))) uks \<and>
           length uniq \<le> length in_coords \<and>
           (codec_round_trip cd \<longrightarrow> map (\<lambda>ic. to_key cd (coord ic)) uniq = map Some uks)"
proof -
  let ?out = "(case sort_key fst (zip ks (map int_of_size [0..<length ks])) of [] \<Rightarrow> []
                 | p # rest \<Rightarrow> \<lparr>coord = from_key cd (fst p), orig_idx = snd p\<rparr> # scan_unique cd (fst p) rest)"
  obtain tr where r: "compute_unique_sorted_coords cfg cd in_coords stride = Some (?out, tr)"
    using compute_unique_sorted_coords_Some [OF keys thr dbg] by blast
  obtain uks where uks: "sorted_wrt (<) uks" "set uks = set ks" "map coord ?out = map (from_key cd) uks"
    "map orig_idx ?out = map (\<lambda>k. snd (hd (filter (\<lambda>r. fst r = k)
                    (sort_key fst (zip ks (map int_of_size [0..<length ks])))))) uks"
    using dedup_output [where cd = cd and ks = ks] by blast
  have "length (map coord ?out) = length (map (from_key cd) uks)" by (simp only: uks(3))
  then have "length ?out = length uks" by (simp only: length_map)
  moreover have "length uks \<le> length ks" using uks(1,2) by (rule strict_sorted_length_le)
  moreover have "length ks = length in_coords" using keys by (simp add: list_all2_lengthD)
  ultimately have len: "length ?out \<le> length in_coords" by simp
  have rt: "map (\<lambda>ic. to_key cd (coord ic)) ?out = map Some uks" if "codec_round_trip cd"
  proof -
    have "to_key cd (from_key cd k) = Some k" if "k \<in> set uks" for k
    proof -
      from that uks(2) keys obtain q where "to_key cd q = Some k"
        by (auto simp: in_set_conv_nth list_all2_conv_all_nth)
      with \<open>codec_round_trip cd\<close> show ?thesis by (auto simp: codec_round_trip_def)
    qed
    then have "map (\<lambda>k. to_key cd (from_key cd k)) uks = map Some uks" by (intro map_cong) auto
    moreover have "map (\<lambda>ic. to_key cd (coord ic)) ?out = map (to_key cd) (map coord ?out)"
      by (simp add: comp_def)
    ultimately show ?thesis unfolding uks(3) by (simp add: comp_def)
  qed
  show ?thesis
  proof (intro exI [of _ ?out] exI [of _ tr] exI [of _ uks] conjI impI)
    show "compute_unique_sorted_coords cfg cd in_coords stride = Some (?out, tr)" by (rule r)
    show "sorted_wrt (<) uks" by (rule uks(1))
    show "set uks = set ks" by (rule uks(2))
    show "map coord ?out = map (from_key cd) uks" by (rule uks(3))
    show "map orig_idx ?out = map (\<lambda>k. snd (hd (filter (\<lambda>r. fst r = k)
                    (sort_key fst (zip ks (map int_of_size [0..<length ks])))))) uks" by (rule uks(4))
    show "length ?out \<le> length in_coords" by (rule len)
    show "map (\<lambda>ic. to_key cd (coord ic)) ?out = map Some uks" if "codec_round_trip cd"
      using that by (rule rt)
  qed
qed

theorem compute_unique_sorted_coords_dedup_witness:
  "list_all2 (\<lambda>c k. \<exists>q. quantized (spec_codec 10) c 1 = Some q \<and> to_key (spec_codec 10) q = Some k)
     [Coord3D 0 0 0, Coord3D 1 0 0, Coord3D 0 0 0] [0, 1048576, 0] \<and>
   0 < NUM_THREADS example_config \<and> \<not> debug example_config \<and>
   map_option fst (compute_unique_sorted_coords example_config (spec_codec 10)
      [Coord3D 0 0 0, Coord3D 1 0 0, Coord3D 0 0 0] 1)
    = Some [\<lparr>coord = Coord3D 0 0 0, orig_idx = 0\<rparr>, \<lparr>coord = Coord3D 1 0 0, orig_idx = 1\<rparr>]"
proof -
  have k: "list_all2 (\<lambda>c k. \<exists>q. quantized (spec_codec 10) c 1 = Some q \<and> to_key (spec_codec 10) q = Some k)
     [Coord3D 0 0 0, Coord3D 1 0 0, Coord3D 0 0 0] [0, 1048576, 0]"
    by (simp add: spec_codec_def Coord3D_quantized_def Coord3D_to_key_def in_budget_def
         signed_divide_int_def)
  have t: "0 < NUM_THREADS example_config" and d: "debug example_config \<longrightarrow> codec_round_trip (spec_codec 10)"
    by (simp_all add: example_config_def)
  have e: "map_option fst (compute_unique_sorted_coords example_config (spec_codec 10)
      [Coord3D 0 0 0, Coord3D 1 0 0, Coord3D 0 0 0] 1)
    = Some [\<lparr>coord = Coord3D 0 0 0, orig_idx = 0\<rparr>, \<lparr>coord = Coord3D 1 0 0, orig_idx = 1\<rparr>]"
    by code_simp
  from compute_unique_sorted_coords_dedup [OF k t d] k t e show ?thesis
    by (simp add: example_config_def)
qed

text \<open>
  C10. Under the same conditions and for an input within the range of \<^verbatim>\<open>int\<close>, the
  \<^verbatim>\<open>orig_idx\<close> of every emitted entry is the least input index \<open>m\<close> among the inputs
  that share the entry's key \<open>ks ! m\<close>; under a round-tripping codec the entry's
  coordinate is the quantized input coordinate at \<open>m\<close>.
\<close>

theorem compute_unique_sorted_coords_min_index:
  assumes keys: "list_all2 (\<lambda>c k. \<exists>q. quantized cd c stride = Some q \<and> to_key cd q = Some k) in_coords ks"
    and thr: "0 < NUM_THREADS cfg"
    and dbg: "debug cfg \<longrightarrow> codec_round_trip cd"
    and len: "length in_coords \<le> 2 ^ 31"
  shows "\<exists>uniq tr. compute_unique_sorted_coords cfg cd in_coords stride = Some (uniq, tr) \<and>
           (\<forall>j<length uniq. \<exists>m<length in_coords.
              orig_idx (uniq ! j) = int m \<and> coord (uniq ! j) = from_key cd (ks ! m) \<and>
              (\<forall>i<length in_coords. ks ! i = ks ! m \<longrightarrow> m \<le> i) \<and>
              (codec_round_trip cd \<longrightarrow>
                 quantized cd (in_coords ! m) stride = Some (coord (uniq ! j)) \<and>
                 to_key cd (coord (uniq ! j)) = Some (ks ! m)))"
proof -
  let ?out = "(case sort_key fst (zip ks (map int_of_size [0..<length ks])) of [] \<Rightarrow> []
                 | p # rest \<Rightarrow> \<lparr>coord = from_key cd (fst p), orig_idx = snd p\<rparr> # scan_unique cd (fst p) rest)"
  obtain tr where r: "compute_unique_sorted_coords cfg cd in_coords stride = Some (?out, tr)"
    using compute_unique_sorted_coords_Some [OF keys thr dbg] by blast
  have n: "length ks = length in_coords" using keys by (simp add: list_all2_lengthD)
  have "\<exists>m<length in_coords.
              orig_idx (?out ! j) = int m \<and> coord (?out ! j) = from_key cd (ks ! m) \<and>
              (\<forall>i<length in_coords. ks ! i = ks ! m \<longrightarrow> m \<le> i) \<and>
              (codec_round_trip cd \<longrightarrow>
                 quantized cd (in_coords ! m) stride = Some (coord (?out ! j)) \<and>
                 to_key cd (coord (?out ! j)) = Some (ks ! m))" if j: "j < length ?out" for j
  proof -
    from dedup_entries [OF j]
    obtain m where m: "m < length ks" "orig_idx (?out ! j) = int_of_size m"
      "coord (?out ! j) = from_key cd (ks ! m)" "\<forall>i<length ks. ks ! i = ks ! m \<longrightarrow> m \<le> i"
      by blast
    have "m < 2 ^ 31" using m(1) n len by simp
    then have a: "orig_idx (?out ! j) = int m" using m(2) by (simp add: int_of_size_small)
    from keys m(1) obtain q where q: "quantized cd (in_coords ! m) stride = Some q" "to_key cd q = Some (ks ! m)"
      by (auto simp: list_all2_conv_all_nth)
    have b: "quantized cd (in_coords ! m) stride = Some (coord (?out ! j)) \<and>
                 to_key cd (coord (?out ! j)) = Some (ks ! m)" if "codec_round_trip cd"
      using that q m(3) by (auto simp: codec_round_trip_def)
    show ?thesis using m(1,3,4) a b n by auto
  qed
  then show ?thesis using r by blast
qed

theorem compute_unique_sorted_coords_min_index_witness:
  "list_all2 (\<lambda>c k. \<exists>q. quantized (spec_codec 10) c 2 = Some q \<and> to_key (spec_codec 10) q = Some k)
     [Coord3D 2 0 0, Coord3D 0 0 0, Coord3D 3 0 0, Coord3D 1 0 0] [1048576, 0, 1048576, 0] \<and>
   0 < NUM_THREADS example_config \<and> \<not> debug example_config \<and>
   length [Coord3D 2 0 0, Coord3D 0 0 0, Coord3D 3 0 0, Coord3D 1 0 0] \<le> 2 ^ 31 \<and>
   map_option fst (compute_unique_sorted_coords example_config (spec_codec 10)
      [Coord3D 2 0 0, Coord3D 0 0 0, Coord3D 3 0 0, Coord3D 1 0 0] 2)
    = Some [\<lparr>coord = Coord3D 0 0 0, orig_idx = 1\<rparr>, \<lparr>coord = Coord3D 1 0 0, orig_idx = 0\<rparr>]"
proof -
  have k: "list_all2 (\<lambda>c k. \<exists>q. quantized (spec_codec 10) c 2 = Some q \<and> to_key (spec_codec 10) q = Some k)
     [Coord3D 2 0 0, Coord3D 0 0 0, Coord3D 3 0 0, Coord3D 1 0 0] [1048576, 0, 1048576, 0]"
    by (simp add: spec_codec_def Coord3D_quantized_def Coord3D_to_key_def in_budget_def
         signed_divide_int_def)
  have t: "0 < NUM_THREADS example_config" and d: "debug example_config \<longrightarrow> codec_round_trip (spec_codec 10)"
    by (simp_all add: example_config_def)
  have l: "length [Coord3D 2 0 0, Coord3D 0 0 0, Coord3D 3 0 0, Coord3D 1 0 0] \<le> 2 ^ 31" by simp
  have e: "map_option fst (compute_unique_sorted_coords example_config (spec_codec 10)
      [Coord3D 2 0 0, Coord3D 0 0 0, Coord3D 3 0 0, Coord3D 1 0 0] 2)
    = Some [\<lparr>coord = Coord3D 0 0 0, orig_idx = 1\<rparr>, \<lparr>coord = Coord3D 1 0 0, orig_idx = 0\<rparr>]"
    by code_simp
  from compute_unique_sorted_coords_min_index [OF k t d l] k t e show ?thesis
    by (simp add: example_config_def)
qed

section \<open>Properties of the writers\<close>

lemma length_le_bytes: "length (le_bytes n v) = n"
  by (simp add: le_bytes_def)

lemma write_chunks_ok:
  assumes "\<forall>n. write_ok env n"
  shows "write_chunks env crc32_fn chunks w =
           Inr \<lparr>written = written w @ concat chunks,
                crc = fold (\<lambda>d c. crc32_fn c d) chunks (crc w),
                calls = calls w + length chunks\<rparr>"
  using assms by (induction chunks arbitrary: w) (simp_all add: write_and_crc_def)

text \<open>
  C8, as the unit has it. The file is opened before the address width is checked: when it
  cannot be opened the call fails with a runtime error whatever the width and no file
  exists; when it can, a width other than 4 or 8 fails with an invalid-argument error
  before any payload byte is written, the file being already created and closed empty;
  with width 4 or 8 and no short write the call succeeds and the payload is the
  little-endian 32-bit entry count followed by one record per trace entry (phase, thread
  id, operation, tensor, then the address in 4 or 8 bytes).
\<close>

theorem write_gmem_trace_behaviour:
  "(\<not> open_ok env \<longrightarrow>
      outcome (write_gmem_trace env crc32_fn trace sizeof_addr) = Inl RuntimeError \<and>
      payload (write_gmem_trace env crc32_fn trace sizeof_addr) = None) \<and>
   (open_ok env \<and> sizeof_addr \<noteq> 4 \<and> sizeof_addr \<noteq> 8 \<longrightarrow>
      outcome (write_gmem_trace env crc32_fn trace sizeof_addr) = Inl InvalidArgument \<and>
      payload (write_gmem_trace env crc32_fn trace sizeof_addr) = Some []) \<and>
   (open_ok env \<and> (sizeof_addr = 4 \<or> sizeof_addr = 8) \<and> (\<forall>n. write_ok env n) \<longrightarrow>
      (\<exists>c. outcome (write_gmem_trace env crc32_fn trace sizeof_addr) = Inr c) \<and>
      payload (write_gmem_trace env crc32_fn trace sizeof_addr) =
        Some (le_bytes 4 (word_of_nat (length trace) :: u32) @
              concat (map (\<lambda>e. [phase e, thread_id e, op e, tensor e] @
                                 (if sizeof_addr = 4 then le_bytes 4 (ucast (addr e) :: u32)
                                  else le_bytes 8 (addr e))) trace)) \<and>
      length (the (payload (write_gmem_trace env crc32_fn trace sizeof_addr))) =
        4 + (4 + nat sizeof_addr) * length trace)"
proof (intro conjI impI)
  assume a: "open_ok env \<and> (sizeof_addr = 4 \<or> sizeof_addr = 8) \<and> (\<forall>n. write_ok env n)"
  then have ok: "\<forall>n. write_ok env n" by simp
  have cc: "concat (concat (map (trace_entry_chunks sizeof_addr) trace)) =
            concat (map (\<lambda>e. [phase e, thread_id e, op e, tensor e] @
                                 (if sizeof_addr = 4 then le_bytes 4 (ucast (addr e) :: u32)
                                  else le_bytes 8 (addr e))) trace)"
    by (induction trace) (simp_all add: trace_entry_chunks_def)
  have eq: "write_gmem_trace env crc32_fn trace sizeof_addr =
      \<lparr>outcome = Inr (fold (\<lambda>d c. crc32_fn c d)
                         (le_bytes 4 (word_of_nat (length trace) :: u32) #
                          concat (map (trace_entry_chunks sizeof_addr) trace)) (crc32_fn 0 [])),
       payload = Some (le_bytes 4 (word_of_nat (length trace) :: u32) @
              concat (map (\<lambda>e. [phase e, thread_id e, op e, tensor e] @
                                 (if sizeof_addr = 4 then le_bytes 4 (ucast (addr e) :: u32)
                                  else le_bytes 8 (addr e))) trace)),
       warnings = []\<rparr>"
    unfolding write_gmem_trace_def Let_def write_chunks_ok [OF ok]
    using a by (auto simp: cc)
  show "\<exists>c. outcome (write_gmem_trace env crc32_fn trace sizeof_addr) = Inr c"
    by (simp add: eq)
  show "payload (write_gmem_trace env crc32_fn trace sizeof_addr) =
        Some (le_bytes 4 (word_of_nat (length trace) :: u32) @
              concat (map (\<lambda>e. [phase e, thread_id e, op e, tensor e] @
                                 (if sizeof_addr = 4 then le_bytes 4 (ucast (addr e) :: u32)
                                  else le_bytes 8 (addr e))) trace))"
    by (simp add: eq)
  have "length (concat (map (\<lambda>e. [phase e, thread_id e, op e, tensor e] @
                                 (if sizeof_addr = 4 then le_bytes 4 (ucast (addr e) :: u32)
                                  else le_bytes 8 (addr e))) trace)) = (4 + nat sizeof_addr) * length trace"
    using a by (induction trace) (auto simp: length_le_bytes)
  then show "length (the (payload (write_gmem_trace env crc32_fn trace sizeof_addr))) =
        4 + (4 + nat sizeof_addr) * length trace"
    by (simp add: eq length_le_bytes)
qed (simp_all add: write_gmem_trace_def)


theorem write_gmem_trace_behaviour_witness:
  "open_ok gz_all_ok \<and> write_ok gz_all_ok 0 \<and>
   write_gmem_trace gz_all_ok example_crc
     [\<lparr>phase = 4, thread_id = 1, op = 0, tensor = 1, addr = 0x20000004\<rparr>] 4 =
     \<lparr>outcome = Inr 12, payload = Some [1, 0, 0, 0, 4, 1, 0, 1, 4, 0, 0, 0x20], warnings = []\<rparr> \<and>
   write_gmem_trace gz_all_ok example_crc
     [\<lparr>phase = 4, thread_id = 1, op = 0, tensor = 1, addr = 0x20000004\<rparr>] 3 =
     \<lparr>outcome = Inl InvalidArgument, payload = Some [], warnings = []\<rparr>"
proof -
  have e: "write_gmem_trace gz_all_ok example_crc
     [\<lparr>phase = 4, thread_id = 1, op = 0, tensor = 1, addr = 0x20000004\<rparr>] 4 =
     \<lparr>outcome = Inr 12, payload = Some [1, 0, 0, 0, 4, 1, 0, 1, 4, 0, 0, 0x20], warnings = []\<rparr>"
    "write_gmem_trace gz_all_ok example_crc
     [\<lparr>phase = 4, thread_id = 1, op = 0, tensor = 1, addr = 0x20000004\<rparr>] 3 =
     \<lparr>outcome = Inl InvalidArgument, payload = Some [], warnings = []\<rparr>"
    by code_simp+
  from write_gmem_trace_behaviour [of gz_all_ok example_crc
     "[\<lparr>phase = 4, thread_id = 1, op = 0, tensor = 1, addr = 0x20000004\<rparr>]" 4] e
  show ?thesis by (simp add: gz_all_ok_def)
qed

text \<open>
  The claim as stated, an invalid-argument error for every call with a bad width, fails
  when the file cannot be opened; and the rejected call leaves an (empty) file behind.
\<close>

theorem write_gmem_trace_open_failure_counterexample:
  "write_gmem_trace gz_no_open example_crc [] 3 =
     \<lparr>outcome = Inl RuntimeError, payload = None, warnings = []\<rparr> \<and>
   write_gmem_trace gz_all_ok example_crc [] 3 =
     \<lparr>outcome = Inl InvalidArgument, payload = Some [], warnings = []\<rparr>"
  by (simp add: write_gmem_trace_def gz_no_open_def gz_all_ok_def)

lemma concat_concat_map:
  "concat (concat (map f xs)) = concat (map (\<lambda>x. concat (f x)) xs)"
  by (induction xs) simp_all

lemma num_total_entries_fold:
  "fold (\<lambda>pair n. n + (word_of_nat (length (snd pair)) :: u32)) kmap_data a =
     a + word_of_nat (sum_list (map (\<lambda>p. length (snd p)) kmap_data))"
  by (induction kmap_data arbitrary: a) (simp_all add: algebra_simps)

lemma write_groups_ok:
  assumes ok: "\<forall>n. write_ok env n"
    and keys: "list_all2 (\<lambda>c k. to_key cd c = Some k) off_list okeys"
  shows "\<exists>w'. write_groups env crc32_fn cd off_list items (w, log) =
           Inr (w', log @ map (\<lambda>p. word_of_int (fst p))
                           (filter (\<lambda>p. \<not> unat (word_of_int (fst p) :: u32) < length off_list) items)) \<and>
         written w' = written w @
           concat (map (\<lambda>p. concat (map (\<lambda>m. concat (match_chunks
                              (okeys ! unat (word_of_int (fst p) :: u32)) m)) (snd p)))
                    (filter (\<lambda>p. unat (word_of_int (fst p) :: u32) < length off_list) items))"
proof (induction items arbitrary: w log)
  case Nil
  then show ?case by simp
next
  case (Cons p items)
  show ?case
  proof (cases "unat (word_of_int (fst p) :: u32) < length off_list")
    case False
    then show ?thesis
      using Cons [of w "log @ [word_of_int (fst p)]"] by (simp add: Let_def)
  next
    case True
    then have k: "to_key cd (off_list ! unat (word_of_int (fst p) :: u32)) =
                    Some (okeys ! unat (word_of_int (fst p) :: u32))"
      using keys by (simp add: list_all2_conv_all_nth)
    let ?chunks = "concat (map (match_chunks (okeys ! unat (word_of_int (fst p) :: u32))) (snd p))"
    let ?w = "\<lparr>written = written w @ concat ?chunks,
                crc = fold (\<lambda>d c. crc32_fn c d) ?chunks (crc w),
                calls = calls w + length ?chunks\<rparr>"
    have cc: "concat ?chunks = concat (map (\<lambda>m. concat (match_chunks
                              (okeys ! unat (word_of_int (fst p) :: u32)) m)) (snd p))"
      by (rule concat_concat_map)
    from Cons [of ?w log] obtain w' where w': "write_groups env crc32_fn cd off_list items (?w, log) =
           Inr (w', log @ map (\<lambda>p. word_of_int (fst p))
                           (filter (\<lambda>p. \<not> unat (word_of_int (fst p) :: u32) < length off_list) items))"
         "written w' = written ?w @
           concat (map (\<lambda>p. concat (map (\<lambda>m. concat (match_chunks
                              (okeys ! unat (word_of_int (fst p) :: u32)) m)) (snd p)))
                    (filter (\<lambda>p. unat (word_of_int (fst p) :: u32) < length off_list) items))"
      by blast
    show ?thesis
      apply (rule exI [of _ w'])
      using True k w' by (simp add: Let_def write_chunks_ok [OF ok] cc)
  qed
qed

text \<open>
  C7, as the unit has it. With an openable file, no short write and a key for every offset
  of the list: \<^verbatim>\<open>write_kernel_map_to_gz\<close> succeeds; it writes the little-endian 32-bit
  sum of all match-list lengths, then one 12-byte record (packed offset key, input index,
  query source index) per match of every group whose offset index is within the offset
  list, the groups in descending order of list length; every group whose offset index is
  out of bounds is skipped with a warning and the later groups are still written. When
  every offset index is in bounds, the number of records is the sum of all list lengths.
\<close>

theorem write_kernel_map_to_gz_layout:
  fixes kmap_data :: KernelMapType and off_list :: "Coord3D list" and env :: gz_env
    and crc32_fn :: "u32 \<Rightarrow> u8 list \<Rightarrow> u32" and cd :: codec
  defines "items \<equiv> get_sorted_items kmap_data"
  defines "in_bounds \<equiv> (\<lambda>p :: int \<times> (int \<times> int) list. unat (word_of_int (fst p) :: u32) < length off_list)"
  defines "r \<equiv> write_kernel_map_to_gz env crc32_fn cd kmap_data off_list"
  assumes op: "open_ok env" and ok: "\<forall>n. write_ok env n"
    and keys: "list_all2 (\<lambda>c k. to_key cd c = Some k) off_list okeys"
  shows "(\<exists>c. outcome r = Inr c) \<and>
         payload r =
           Some (le_bytes 4 (word_of_nat (sum_list (map (\<lambda>p. length (snd p)) kmap_data)) :: u32) @
                 concat (map (\<lambda>p. concat (map (\<lambda>m.
                                le_bytes 4 (okeys ! unat (word_of_int (fst p) :: u32)) @
                                le_bytes 4 (word_of_int (fst m) :: u32) @
                                le_bytes 4 (word_of_int (snd m) :: u32)) (snd p)))
                          (filter in_bounds items))) \<and>
         length (the (payload r)) =
           4 + 12 * sum_list (map (\<lambda>p. length (snd p)) (filter in_bounds items)) \<and>
         warnings r = map (\<lambda>p. word_of_int (fst p)) (filter (\<lambda>p. \<not> in_bounds p) items) \<and>
         mset items = mset kmap_data \<and>
         sorted_wrt (\<lambda>a b. length (snd b) \<le> length (snd a)) items \<and>
         ((\<forall>p \<in> set kmap_data. in_bounds p) \<longrightarrow>
            sum_list (map (\<lambda>p. length (snd p)) (filter in_bounds items)) =
            sum_list (map (\<lambda>p. length (snd p)) kmap_data))"
proof -
  let ?w0 = "\<lparr>written = le_bytes 4 (word_of_nat (sum_list (map (\<lambda>p. length (snd p)) kmap_data)) :: u32),
             crc = crc32_fn (crc32_fn 0 [])
                     (le_bytes 4 (word_of_nat (sum_list (map (\<lambda>p. length (snd p)) kmap_data)) :: u32)),
             calls = 1\<rparr>"
  have h: "write_and_crc env crc32_fn
             (le_bytes 4 (fold (\<lambda>pair n. n + (word_of_nat (length (snd pair)) :: u32)) kmap_data 0))
             \<lparr>written = [], crc = crc32_fn 0 [], calls = 0\<rparr> = Inr ?w0"
    using ok by (simp add: write_and_crc_def num_total_entries_fold)
  from write_groups_ok [OF ok keys, of crc32_fn items ?w0 "[]"]
  obtain w' where w': "write_groups env crc32_fn cd off_list items (?w0, []) =
        Inr (w', map (\<lambda>p. word_of_int (fst p)) (filter (\<lambda>p. \<not> in_bounds p) items))"
     "written w' = written ?w0 @
           concat (map (\<lambda>p. concat (map (\<lambda>m. concat (match_chunks
                              (okeys ! unat (word_of_int (fst p) :: u32)) m)) (snd p)))
                    (filter in_bounds items))"
    unfolding in_bounds_def by auto
  have req: "r = \<lparr>outcome = Inr (crc w'), payload = Some (written w'),
                  warnings = map (\<lambda>p. word_of_int (fst p)) (filter (\<lambda>p. \<not> in_bounds p) items)\<rparr>"
    unfolding r_def write_kernel_map_to_gz_def Let_def h
    using op w'(1) by (simp add: items_def)
  have mc: "concat (match_chunks k m) =
              le_bytes 4 k @ le_bytes 4 (word_of_int (fst m) :: u32) @ le_bytes 4 (word_of_int (snd m) :: u32)"
    for k m by (simp add: match_chunks_def)
  have len_g: "length (concat (map (\<lambda>p. concat (map (\<lambda>m.
                                le_bytes 4 (okeys ! unat (word_of_int (fst p) :: u32)) @
                                le_bytes 4 (word_of_int (fst m) :: u32) @
                                le_bytes 4 (word_of_int (snd m) :: u32)) (snd p))) gs))
               = 12 * sum_list (map (\<lambda>p. length (snd p)) gs)" for gs :: KernelMapType
  proof (induction gs)
    case Nil
    then show ?case by simp
  next
    case (Cons g gs)
    have "length (concat (map (\<lambda>m. le_bytes 4 k @ le_bytes 4 (word_of_int (fst m) :: u32) @
                                le_bytes 4 (word_of_int (snd m) :: u32)) ms)) = 12 * length ms"
      for k :: u32 and ms :: "(int \<times> int) list"
      by (induction ms) (simp_all add: length_le_bytes)
    with Cons show ?case by (simp add: algebra_simps)
  qed
  have ms: "mset items = mset kmap_data" by (simp add: items_def get_sorted_items_def mset_sort)
  have "sorted (map (\<lambda>p. - int (length (snd p))) items)"
    unfolding items_def get_sorted_items_def by (rule sorted_sort_key)
  then have srt: "sorted_wrt (\<lambda>a b. length (snd b) \<le> length (snd a)) items"
    by (simp add: sorted_map)
  have all: "sum_list (map (\<lambda>p. length (snd p)) (filter in_bounds items)) =
            sum_list (map (\<lambda>p. length (snd p)) kmap_data)" if "\<forall>p \<in> set kmap_data. in_bounds p"
  proof -
    have "set items = set kmap_data" using ms by (metis set_mset_mset)
    with that have "filter in_bounds items = items" by simp
    moreover have "mset (map (\<lambda>p. length (snd p)) items) = mset (map (\<lambda>p. length (snd p)) kmap_data)"
      using ms by (metis mset_map)
    then have "sum_list (map (\<lambda>p. length (snd p)) items) = sum_list (map (\<lambda>p. length (snd p)) kmap_data)"
      by (metis sum_mset_sum_list)
    ultimately show ?thesis by simp
  qed
  show ?thesis
  proof (intro conjI impI)
    show "\<exists>c. outcome r = Inr c" by (simp add: req)
    show p: "payload r =
           Some (le_bytes 4 (word_of_nat (sum_list (map (\<lambda>p. length (snd p)) kmap_data)) :: u32) @
                 concat (map (\<lambda>p. concat (map (\<lambda>m.
                                le_bytes 4 (okeys ! unat (word_of_int (fst p) :: u32)) @
                                le_bytes 4 (word_of_int (fst m) :: u32) @
                                le_bytes 4 (word_of_int (snd m) :: u32)) (snd p)))
                          (filter in_bounds items)))"
      by (simp add: req w'(2) mc)
    show "length (the (payload r)) =
           4 + 12 * sum_list (map (\<lambda>p. length (snd p)) (filter in_bounds items))"
      unfolding p by (simp add: len_g length_le_bytes)
    show "warnings r = map (\<lambda>p. word_of_int (fst p)) (filter (\<lambda>p. \<not> in_bounds p) items)"
      by (simp add: req)
    show "mset items = mset kmap_data" by (rule ms)
    show "sorted_wrt (\<lambda>a b. length (snd b) \<le> length (snd a)) items" by (rule srt)
    show "sum_list (map (\<lambda>p. length (snd p)) (filter in_bounds items)) =
            sum_list (map (\<lambda>p. length (snd p)) kmap_data)" if "\<forall>p \<in> set kmap_data. in_bounds p"
      using that by (rule all)
  qed
qed


theorem write_kernel_map_to_gz_layout_witness:
  "open_ok gz_all_ok \<and> write_ok gz_all_ok 0 \<and>
   list_all2 (\<lambda>c k. to_key (spec_codec 10) c = Some k) [Coord3D 1 0 0, Coord3D 0 1 0] [1048576, 1024] \<and>
   write_kernel_map_to_gz gz_all_ok example_crc (spec_codec 10)
         [(0, [(1, 0)]), (1, [(2, 0), (3, 1)])] [Coord3D 1 0 0, Coord3D 0 1 0] =
     \<lparr>outcome = Inr 40,
      payload = Some [3, 0, 0, 0,
                      0, 4, 0, 0, 2, 0, 0, 0, 0, 0, 0, 0,
                      0, 4, 0, 0, 3, 0, 0, 0, 1, 0, 0, 0,
                      0, 0, 16, 0, 1, 0, 0, 0, 0, 0, 0, 0],
      warnings = []\<rparr>"
proof -
  have o: "open_ok gz_all_ok" and w: "\<forall>n. write_ok gz_all_ok n"
    by (simp_all add: gz_all_ok_def)
  have k: "list_all2 (\<lambda>c k. to_key (spec_codec 10) c = Some k) [Coord3D 1 0 0, Coord3D 0 1 0] [1048576, 1024]"
    by (simp add: spec_codec_def Coord3D_to_key_def in_budget_def)
  have e: "write_kernel_map_to_gz gz_all_ok example_crc (spec_codec 10)
         [(0, [(1, 0)]), (1, [(2, 0), (3, 1)])] [Coord3D 1 0 0, Coord3D 0 1 0] =
     \<lparr>outcome = Inr 40,
      payload = Some [3, 0, 0, 0,
                      0, 4, 0, 0, 2, 0, 0, 0, 0, 0, 0, 0,
                      0, 4, 0, 0, 3, 0, 0, 0, 1, 0, 0, 0,
                      0, 0, 16, 0, 1, 0, 0, 0, 0, 0, 0, 0],
      warnings = []\<rparr>"
    by code_simp
  from write_kernel_map_to_gz_layout [OF o w k, of example_crc "[(0, [(1, 0)]), (1, [(2, 0), (3, 1)])]"]
    o w k e
  show ?thesis by simp
qed

text \<open>
  The claim as stated, a count followed by exactly that many records, fails as soon as a
  non-empty group is skipped: the count written is 1 and no record follows.
\<close>

theorem write_kernel_map_to_gz_skipped_group_counterexample:
  "write_kernel_map_to_gz gz_all_ok example_crc (spec_codec 10) [(5, [(1, 0)])] [] =
     \<lparr>outcome = Inr 4, payload = Some [1, 0, 0, 0], warnings = [5]\<rparr>"
  by code_simp

section \<open>Properties of the lookup\<close>

declare find_tile_id.simps [simp del]
declare find_tile_id_value.simps [simp del]
declare batches_loop.simps [simp del]

lemma find_tile_id_project:
  "\<exists>tr. find_tile_id cfg cd tid pivs q low high target =
          map_option (\<lambda>t. (t, tr t)) (find_tile_id_value cd pivs q low high target)"
proof (induction cfg cd tid pivs q low high target rule: find_tile_id.induct)
  case (1 cfg cd tid pivs q low high target)
  show ?case
  proof (cases "low \<le> high")
    case False
    then show ?thesis
      by (subst find_tile_id.simps, subst find_tile_id_value.simps) (auto intro: exI [of _ "\<lambda>t. []"])
  next
    case True
    define mid where "mid = low + (high - low) div 2"
    obtain t' where e: "record_access cfg ''LKP'' tid ''R'' (PIV_BASE cfg + word_of_int mid * SIZE_KEY cfg)
        = Some \<lparr>phase = 4, thread_id = word_of_nat tid, op = 0, tensor = t', addr = PIV_BASE cfg + word_of_int mid * SIZE_KEY cfg\<rparr>"
      using record_access_LKP_R by blast
    let ?e = "\<lparr>phase = 4, thread_id = word_of_nat tid, op = 0, tensor = t', addr = PIV_BASE cfg + word_of_int mid * SIZE_KEY cfg\<rparr>"
    show ?thesis
    proof (cases "to_key cd (coord (pivs ! nat mid))")
      case None
      then show ?thesis
        using True e
        by (subst find_tile_id.simps, subst find_tile_id_value.simps) (simp add: mid_def Let_def)
    next
      case (Some k)
      show ?thesis
      proof (cases "k \<le> q")
        case le: True
        from "1.IH"(1) [OF True mid_def e Some le]
        obtain tr where tr: "find_tile_id cfg cd tid pivs q (mid + 1) high mid =
          map_option (\<lambda>t. (t, tr t)) (find_tile_id_value cd pivs q (mid + 1) high mid)"
          by blast
        show ?thesis
          apply (rule exI [of _ "\<lambda>t. ?e # tr t"])
          apply (subst find_tile_id.simps, subst find_tile_id_value.simps)
          using True e Some le tr by (auto simp: mid_def Let_def split: option.splits)
      next
        case gt: False
        from "1.IH"(2) [OF True mid_def e Some gt]
        obtain tr where tr: "find_tile_id cfg cd tid pivs q low (mid - 1) target =
          map_option (\<lambda>t. (t, tr t)) (find_tile_id_value cd pivs q low (mid - 1) target)"
          by blast
        show ?thesis
          apply (rule exI [of _ "\<lambda>t. ?e # tr t"])
          apply (subst find_tile_id.simps, subst find_tile_id_value.simps)
          using True e Some gt tr by (auto simp: mid_def Let_def split: option.splits)
      qed
    qed
  qed
qed


lemma search_in_tile_project:
  "\<exists>tr. search_in_tile cfg cd tid n target ts q idx tile =
          map_option (\<lambda>r. (r, tr r)) (search_in_tile_value cd q tile)"
proof (induction tile arbitrary: idx)
  case Nil
  show ?case by (auto intro: exI [of _ "\<lambda>r. []"])
next
  case (Cons x tile)
  define a where "a = (if (size_of_int (target * ts) + idx) mod 2 ^ 64 \<ge> n
                         then (if n = 0 then 0 else n - 1)
                         else (size_of_int (target * ts) + idx) mod 2 ^ 64)"
  have step: "search_in_tile cfg cd tid n target ts q idx (x # tile) =
      (case record_access cfg ''LKP'' tid ''R'' (TILE_BASE cfg + word_of_nat a * SIZE_KEY cfg) of
         None \<Rightarrow> None
       | Some e \<Rightarrow>
           (case to_key cd (coord x) of
              None \<Rightarrow> None
            | Some k \<Rightarrow>
                if k = q then Some (Some (orig_idx x), [e])
                else (case search_in_tile cfg cd tid n target ts q (Suc idx) tile of
                        None \<Rightarrow> None
                      | Some (r, tr) \<Rightarrow> Some (r, e # tr))))"
    unfolding a_def by (simp only: search_in_tile.simps Let_def)
  obtain t' where e: "record_access cfg ''LKP'' tid ''R'' (TILE_BASE cfg + word_of_nat a * SIZE_KEY cfg)
        = Some \<lparr>phase = 4, thread_id = word_of_nat tid, op = 0, tensor = t',
                 addr = TILE_BASE cfg + word_of_nat a * SIZE_KEY cfg\<rparr>"
    using record_access_LKP_R by blast
  let ?e = "\<lparr>phase = 4, thread_id = word_of_nat tid, op = 0, tensor = t',
                 addr = TILE_BASE cfg + word_of_nat a * SIZE_KEY cfg\<rparr>"
  from Cons [of "Suc idx"] obtain tr where tr: "search_in_tile cfg cd tid n target ts q (Suc idx) tile =
          map_option (\<lambda>r. (r, tr r)) (search_in_tile_value cd q tile)" by blast
  show ?case
    apply (rule exI [of _ "\<lambda>r. if to_key cd (coord x) = Some q then [?e] else ?e # tr r"])
    unfolding step e using tr by (auto split: option.splits)
qed

lemma search_in_tile_reads:
  "search_in_tile cfg cd tid n target ts q idx tile = Some (r, tr) \<Longrightarrow>
   (tile \<noteq> [] \<longrightarrow> tr \<noteq> []) \<and>
   (\<forall>e \<in> set tr. op e = 0 \<and> (\<exists>i. addr e = TILE_BASE cfg + word_of_nat i * SIZE_KEY cfg))"
proof (induction tile arbitrary: idx r tr)
  case Nil
  then show ?case by simp
next
  case (Cons x tile)
  define a where "a = (if (size_of_int (target * ts) + idx) mod 2 ^ 64 \<ge> n
                         then (if n = 0 then 0 else n - 1)
                         else (size_of_int (target * ts) + idx) mod 2 ^ 64)"
  have step: "search_in_tile cfg cd tid n target ts q idx (x # tile) =
      (case record_access cfg ''LKP'' tid ''R'' (TILE_BASE cfg + word_of_nat a * SIZE_KEY cfg) of
         None \<Rightarrow> None
       | Some e \<Rightarrow>
           (case to_key cd (coord x) of
              None \<Rightarrow> None
            | Some k \<Rightarrow>
                if k = q then Some (Some (orig_idx x), [e])
                else (case search_in_tile cfg cd tid n target ts q (Suc idx) tile of
                        None \<Rightarrow> None
                      | Some (r, tr) \<Rightarrow> Some (r, e # tr))))"
    unfolding a_def by (simp only: search_in_tile.simps Let_def)
  obtain t' where e: "record_access cfg ''LKP'' tid ''R'' (TILE_BASE cfg + word_of_nat a * SIZE_KEY cfg)
        = Some \<lparr>phase = 4, thread_id = word_of_nat tid, op = 0, tensor = t',
                 addr = TILE_BASE cfg + word_of_nat a * SIZE_KEY cfg\<rparr>"
    using record_access_LKP_R by blast
  let ?e = "\<lparr>phase = 4, thread_id = word_of_nat tid, op = 0, tensor = t',
                 addr = TILE_BASE cfg + word_of_nat a * SIZE_KEY cfg\<rparr>"
  have pe: "op ?e = 0 \<and> (\<exists>i. addr ?e = TILE_BASE cfg + word_of_nat i * SIZE_KEY cfg)"
    by (simp, rule exI [of _ a], rule refl)
  from Cons.prems [unfolded step e]
  consider "tr = [?e]" | tr' r' where "tr = ?e # tr'"
      "search_in_tile cfg cd tid n target ts q (Suc idx) tile = Some (r', tr')"
    by (auto split: option.splits if_splits)
  then show ?case
  proof cases
    case 1
    then show ?thesis using pe by simp
  next
    case 2
    from Cons.IH [OF 2(2)] have "\<forall>e \<in> set tr'. op e = 0 \<and>
        (\<exists>i. addr e = TILE_BASE cfg + word_of_nat i * SIZE_KEY cfg)" by blast
    then show ?thesis using pe 2(1) by simp
  qed
qed

lemma search_in_tile_value_sound:
  "search_in_tile_value cd q tile = Some (Some a) \<Longrightarrow>
   \<exists>e \<in> set tile. a = orig_idx e \<and> to_key cd (coord e) = Some q"
  by (induction tile) (auto split: option.splits if_splits)

lemma search_in_tile_value_none:
  "\<forall>e \<in> set tile. \<exists>k. to_key cd (coord e) = Some k \<and> k \<noteq> q \<Longrightarrow>
   search_in_tile_value cd q tile = Some None"
  by (induction tile) (auto split: option.splits if_splits)

lemma find_tile_id_value_range:
  "find_tile_id_value cd pivs q low high target = Some t \<Longrightarrow> t = target \<or> (low \<le> t \<and> t \<le> high)"
proof (induction cd pivs q low high target arbitrary: t rule: find_tile_id_value.induct)
  case (1 cd pivs q low high target)
  show ?case
  proof (cases "low \<le> high")
    case False
    with "1.prems" show ?thesis by (simp add: find_tile_id_value.simps)
  next
    case True
    define mid where "mid = low + (high - low) div 2"
    have m: "low \<le> mid" "mid \<le> high" using True by (auto simp: mid_def)
    from "1.prems" True obtain k where k: "to_key cd (coord (pivs ! nat mid)) = Some k"
      by (subst (asm) find_tile_id_value.simps) (auto simp: mid_def Let_def split: option.splits)
    show ?thesis
    proof (cases "k \<le> q")
      case le: True
      have "find_tile_id_value cd pivs q (mid + 1) high mid = Some t"
        using "1.prems" True k le
        by (subst (asm) find_tile_id_value.simps) (simp add: mid_def Let_def)
      from "1.IH"(1) [OF True mid_def k le this] m show ?thesis by auto
    next
      case gt: False
      have "find_tile_id_value cd pivs q low (mid - 1) target = Some t"
        using "1.prems" True k gt
        by (subst (asm) find_tile_id_value.simps) (simp add: mid_def Let_def)
      from "1.IH"(2) [OF True mid_def k gt this] m show ?thesis by auto
    qed
  qed
qed


lemma inverse_at_OPS_Suc_0: "inverse_at OPS (Suc 0) = Some ''W''"
  by (simp add: inverse_at_def OPS_def)

lemma int_of_size_le: "int_of_size n \<le> int n"
proof -
  have "(word_of_nat n :: 32 word) = word_of_int (int n)" by simp
  then have "int_of_size n = signed_take_bit 31 (int n)"
    unfolding int_of_size_def by (simp only: sint_sbintrunc') simp
  moreover have "signed_take_bit 31 (int n) \<le> int n"
    by (simp add: signed_take_bit_int_less_eq_self_iff)
  ultimately show ?thesis by simp
qed

lemma lookup_query_project:
  "map_option (\<lambda>r. kmap (fst r))
     (lookup_query cfg cd uniq qkeys qoff tls pivs ts tid g (st, loc)) =
   map_option (\<lambda>m. apply_match m (kmap st)) (query_match cd qkeys qoff tls pivs g)"
proof (cases "g \<ge> length qkeys \<or> g \<ge> length qoff")
  case True
  then show ?thesis
    by (auto simp: lookup_query_def query_match_def apply_match_def)
next
  case False
  then have g: "\<not> g \<ge> length qkeys" "\<not> g \<ge> length qoff" by auto
  show ?thesis
  proof (cases "to_key cd (coord (qkeys ! g))")
    case None
    then show ?thesis using g by (simp add: lookup_query_def query_match_def)
  next
    case (Some q)
    obtain e where e: "record_access cfg ''LKP'' tid ''R'' (QK_BASE cfg + word_of_nat g * SIZE_KEY cfg) = Some e"
      using record_access_LKP_R by blast
    obtain ptr where ptr: "find_tile_id cfg cd tid pivs q 0 (int_of_size (length pivs) - 1) 0 =
          map_option (\<lambda>t. (t, ptr t)) (find_tile_id_value cd pivs q 0 (int_of_size (length pivs) - 1) 0)"
      using find_tile_id_project by blast
    define tv where "tv = (if pivs \<noteq> []
           then find_tile_id_value cd pivs q 0 (int_of_size (length pivs) - 1) 0 else Some (- 1))"
    define ptr' where "ptr' = (if pivs \<noteq> [] then ptr else (\<lambda>t. []))"
    have sel: "(if pivs \<noteq> [] then find_tile_id cfg cd tid pivs q 0 (int_of_size (length pivs) - 1) 0
                else Some (- 1, [])) = map_option (\<lambda>t. (t, ptr' t)) tv"
      by (simp add: tv_def ptr'_def ptr)
    have lq: "lookup_query cfg cd uniq qkeys qoff tls pivs ts tid g (st, loc) =
        (case map_option (\<lambda>t. (t, ptr' t)) tv of None \<Rightarrow> None
         | Some (target_tile_id, ptr) \<Rightarrow>
            (case (if target_tile_id \<noteq> - 1 \<and> target_tile_id < int_of_size (length tls)
                   then search_in_tile cfg cd tid (length uniq) target_tile_id ts q 0 (tls ! nat target_tile_id)
                   else Some (None, [])) of None \<Rightarrow> None
             | Some (found, ttr) \<Rightarrow>
                (case found of
                   None \<Rightarrow> Some (st, loc @ e # ptr @ ttr)
                 | Some a \<Rightarrow>
                     (case record_access cfg ''LKP'' tid ''W''
                             (KM_BASE cfg + kmap_write_idx_atomic st * SIZE_INT cfg) of
                        None \<Rightarrow> None
                      | Some w \<Rightarrow>
                          Some (st\<lparr>kmap := kmap_emplace_back (qoff ! g) (a, orig_idx (qkeys ! g)) (kmap st),
                                   kmap_write_idx_atomic := kmap_write_idx_atomic st + 1\<rparr>,
                                loc @ e # ptr @ ttr @ [w])))))"
      unfolding sel [symmetric]
      using g Some e
      by (auto simp: lookup_query_def select_tile_def scan_tile_def Let_def inverse_at_OPS_Suc_0
            split: option.splits prod.splits)
    have qm: "query_match cd qkeys qoff tls pivs g =
        (case tv of None \<Rightarrow> None
         | Some target_tile_id \<Rightarrow>
            (case (if target_tile_id \<noteq> - 1 \<and> target_tile_id < int_of_size (length tls)
                   then search_in_tile_value cd q (tls ! nat target_tile_id)
                   else Some None) of None \<Rightarrow> None
             | Some found \<Rightarrow> Some (map_option (\<lambda>a. (qoff ! g, a, orig_idx (qkeys ! g))) found)))"
      using g Some by (auto simp: query_match_def tv_def split: option.splits)
    show ?thesis
    proof (cases tv)
      case None
      then show ?thesis by (simp add: lq qm)
    next
      case tvs: (Some t)
      obtain ttr where ttr: "search_in_tile cfg cd tid (length uniq) t ts q 0 (tls ! nat t) =
          map_option (\<lambda>r. (r, ttr r)) (search_in_tile_value cd q (tls ! nat t))"
        using search_in_tile_project by blast
      obtain w where w: "record_access cfg ''LKP'' tid ''W''
                             (KM_BASE cfg + kmap_write_idx_atomic st * SIZE_INT cfg) = Some w"
        using record_access_LKP_W by blast
      show ?thesis
        by (auto simp: lq qm tvs ttr w apply_match_def split: option.splits)
    qed
  qed
qed


lemma foldM_append:
  "foldM f (xs @ ys) s = (case foldM f xs s of None \<Rightarrow> None | Some s' \<Rightarrow> foldM f ys s')"
  by (induction xs arbitrary: s) (auto split: option.splits)

lemma foldM_project:
  assumes "\<And>x s. map_option P (f x s) = g x (P s)"
  shows "map_option P (foldM f xs s) = foldM g xs (P s)"
proof (induction xs arbitrary: s)
  case Nil
  show ?case by simp
next
  case (Cons x xs)
  show ?case
  proof (cases "f x s")
    case None
    with assms [of x s] show ?thesis by simp
  next
    case (Some s')
    with assms [of x s] have "g x (P s) = Some (P s')" by simp
    with Some Cons [of s'] show ?thesis by simp
  qed
qed

lemma foldM_map: "foldM f (map h xs) s = foldM (\<lambda>x. f (h x)) xs s"
  by (induction xs arbitrary: s) (auto split: option.splits)

lemma map_add_upt_from: "map (\<lambda>i. bs + i) [a..<b] = [bs + a..<bs + b]"
proof (induction b)
  case 0
  show ?case by simp
next
  case (Suc b)
  show ?case
  proof (cases "a \<le> b")
    case True
    with Suc show ?thesis by simp
  next
    case False
    then show ?thesis by simp
  qed
qed

lemma upt_split: "a \<le> b \<Longrightarrow> b \<le> c \<Longrightarrow> [a..<c] = [a..<b] @ [b..<c]" for a b c :: nat
  using upt_add_eq_append [of a b "c - b"] by simp

lemma run_queries_append:
  "run_queries cd qkeys qoff tls pivs (gs @ hs) km =
     (case run_queries cd qkeys qoff tls pivs gs km of None \<Rightarrow> None
      | Some km' \<Rightarrow> run_queries cd qkeys qoff tls pivs hs km')"
  by (simp add: run_queries_def foldM_append split: option.splits)

lemma run_queries_Nil: "run_queries cd qkeys qoff tls pivs [] km = Some km"
  by (simp add: run_queries_def)

lemma worker_project:
  "map_option kmap (worker cfg cd uniq qkeys qoff tls pivs ts bs tid a b st) =
     run_queries cd qkeys qoff tls pivs [bs + a..<bs + b] (kmap st)"
proof -
  let ?F = "\<lambda>off. lookup_query cfg cd uniq qkeys qoff tls pivs ts tid (bs + off)"
  let ?G = "\<lambda>g km. map_option (\<lambda>m. apply_match m km) (query_match cd qkeys qoff tls pivs g)"
  have "map_option kmap (worker cfg cd uniq qkeys qoff tls pivs ts bs tid a b st) =
        map_option (\<lambda>r. kmap (fst r)) (foldM ?F [a..<b] (st, []))"
    by (simp add: worker_def split: option.splits)
  also have "\<dots> = foldM (\<lambda>off. ?G (bs + off)) [a..<b] (kmap st)"
  proof -
    have "map_option (\<lambda>r. kmap (fst r)) (?F x s) = ?G (bs + x) (kmap (fst s))" for x s
      using lookup_query_project [of cfg cd uniq qkeys qoff tls pivs ts tid "bs + x" "fst s" "snd s"]
      by simp
    from foldM_project [of "\<lambda>r. kmap (fst r)" ?F "\<lambda>off. ?G (bs + off)", OF this, of "[a..<b]" "(st, [])"]
    show ?thesis by simp
  qed
  also have "\<dots> = foldM ?G (map (\<lambda>i. bs + i) [a..<b]) (kmap st)"
    by (simp add: foldM_map)
  finally show ?thesis
    by (simp add: run_queries_def map_add_upt_from)
qed

lemma ceil_div_cover: "0 < n \<Longrightarrow> cbs \<le> n * ((cbs + n - 1) div n)" for n cbs :: nat
proof -
  assume n: "0 < n"
  define d where "d = (cbs + n - 1) div n"
  have "cbs + n - 1 < n * d + n"
    using n by (metis d_def dividend_less_times_div add.commute mult.commute)
  then show ?thesis unfolding d_def using n by simp
qed

lemma run_batch_project:
  assumes n: "0 < NUM_THREADS cfg"
  shows "map_option kmap (run_batch cfg cd uniq qkeys qoff tls pivs ts bs cbs st) =
           run_queries cd qkeys qoff tls pivs [bs..<bs + cbs] (kmap st)"
proof -
  define p where "p = (cbs + NUM_THREADS cfg - 1) div NUM_THREADS cfg"
  let ?T = "\<lambda>tid st. if tid * p < cbs
              then worker cfg cd uniq qkeys qoff tls pivs ts bs tid (tid * p) (min (tid * p + p) cbs) st
              else Some st"
  let ?GT = "\<lambda>tid km. if tid * p < cbs
              then run_queries cd qkeys qoff tls pivs [bs + tid * p..<bs + min (tid * p + p) cbs] km
              else Some km"
  have rb: "run_batch cfg cd uniq qkeys qoff tls pivs ts bs cbs st = foldM ?T [0..<NUM_THREADS cfg] st"
    using n unfolding run_batch_def Let_def p_def by simp
  have pr: "map_option kmap (?T tid s) = ?GT tid (kmap s)" for tid s
    by (simp add: worker_project)
  have pre: "foldM ?GT [0..<j] km = run_queries cd qkeys qoff tls pivs [bs..<bs + min (j * p) cbs] km" for j km
  proof (induction j)
    case 0
    show ?case by (simp add: run_queries_Nil)
  next
    case (Suc j)
    show ?case
    proof (cases "j * p < cbs")
      case True
      then have m: "min (j * p) cbs = j * p" "Suc j * p = j * p + p" by simp_all
      have "[bs..<bs + min (j * p + p) cbs] =
                 [bs..<bs + j * p] @ [bs + j * p..<bs + min (j * p + p) cbs]"
        using True by (intro upt_split) simp_all
      then have "[bs..<bs + min (Suc j * p) cbs] =
                 [bs..<bs + min (j * p) cbs] @ [bs + j * p..<bs + min (j * p + p) cbs]"
        by (simp only: m)
      then show ?thesis using True Suc
        by (simp add: foldM_append run_queries_append split: option.splits)
    next
      case False
      then have "min (Suc j * p) cbs = min (j * p) cbs" by (simp add: min_def)
      then show ?thesis using False Suc
        by (simp add: foldM_append split: option.splits)
    qed
  qed
  have "min (NUM_THREADS cfg * p) cbs = cbs"
    using ceil_div_cover [OF n, of cbs] by (simp add: p_def min_def)
  with pre [of "NUM_THREADS cfg" "kmap st"]
  have "foldM ?GT [0..<NUM_THREADS cfg] (kmap st) = run_queries cd qkeys qoff tls pivs [bs..<bs + cbs] (kmap st)"
    by simp
  moreover have "map_option kmap (foldM ?T [0..<NUM_THREADS cfg] st) = foldM ?GT [0..<NUM_THREADS cfg] (kmap st)"
    by (rule foldM_project) (rule pr)
  ultimately show ?thesis by (simp add: rb)
qed

lemma batch_start_less:
  "bi < (Q + 128 - 1) div 128 \<Longrightarrow> bi * 128 < Q" for bi Q :: nat
  by (simp add: less_mult_imp_div_less div_less_iff_less_mult) arith?

lemma batches_cover: "Q \<le> ((Q + 128 - 1) div 128) * 128" for Q :: nat
  using ceil_div_cover [of 128 Q] by (simp add: mult.commute)

lemma batches_loop_project:
  assumes n: "0 < NUM_THREADS cfg" and nb: "nb = (length qkeys + 128 - 1) div 128"
  shows "map_option kmap (batches_loop cfg cd uniq qkeys qoff tls pivs ts nb bi st) =
           run_queries cd qkeys qoff tls pivs [min (bi * 128) (length qkeys)..<length qkeys] (kmap st)"
proof (induction "nb - bi" arbitrary: bi st rule: less_induct)
  case less
  show ?case
  proof (cases "bi < nb")
    case False
    then have "nb * 128 \<le> bi * 128" by simp
    with batches_cover [of "length qkeys"] have "length qkeys \<le> bi * 128" by (simp add: nb)
    then have e: "[min (bi * 128) (length qkeys)..<length qkeys] = []" by simp
    have "batches_loop cfg cd uniq qkeys qoff tls pivs ts nb bi st = Some st"
      using False by (subst batches_loop.simps) simp
    then show ?thesis unfolding e by (simp add: run_queries_Nil)
  next
    case True
    define bs where "bs = bi * 128"
    define cbs where "cbs = min 128 (length qkeys - bs)"
    have lt: "bs < length qkeys" using True batch_start_less [of bi "length qkeys"] by (simp add: nb bs_def)
    then have pos: "\<not> cbs \<le> 0" by (simp add: cbs_def)
    have nxt: "min ((bi + 1) * 128) (length qkeys) = bs + cbs"
      using lt by (auto simp add: bs_def cbs_def min_def)
    have split: "[min (bi * 128) (length qkeys)..<length qkeys] =
                 [bs..<bs + cbs] @ [bs + cbs..<length qkeys]"
    proof -
      have "min (bi * 128) (length qkeys) = bs" using lt by (simp add: bs_def)
      moreover have "bs + cbs \<le> length qkeys" using lt by (auto simp: cbs_def min_def)
      then have "[bs..<length qkeys] = [bs..<bs + cbs] @ [bs + cbs..<length qkeys]"
        by (intro upt_split) simp_all
      ultimately show ?thesis by simp
    qed
    have unf: "batches_loop cfg cd uniq qkeys qoff tls pivs ts nb bi st =
       (case run_batch cfg cd uniq qkeys qoff tls pivs ts bs cbs st of None \<Rightarrow> None
        | Some st' \<Rightarrow> batches_loop cfg cd uniq qkeys qoff tls pivs ts nb (bi + 1) st')"
      apply (subst batches_loop.simps)
      unfolding Let_def bs_def [symmetric] cbs_def [symmetric]
      using True pos by simp
    have rb: "map_option kmap (run_batch cfg cd uniq qkeys qoff tls pivs ts bs cbs st) =
           run_queries cd qkeys qoff tls pivs [bs..<bs + cbs] (kmap st)"
      by (rule run_batch_project [OF n])
    show ?thesis
    proof (cases "run_batch cfg cd uniq qkeys qoff tls pivs ts bs cbs st")
      case None
      with rb have "run_queries cd qkeys qoff tls pivs [bs..<bs + cbs] (kmap st) = None" by simp
      then show ?thesis by (simp add: unf None split run_queries_append)
    next
      case (Some st')
      with rb have r: "run_queries cd qkeys qoff tls pivs [bs..<bs + cbs] (kmap st) = Some (kmap st')" by simp
      have "nb - (bi + 1) < nb - bi" using True by simp
      from less [OF this, of st']
      have "map_option kmap (batches_loop cfg cd uniq qkeys qoff tls pivs ts nb (bi + 1) st') =
            run_queries cd qkeys qoff tls pivs [bs + cbs..<length qkeys] (kmap st')"
        unfolding nxt .
      then show ?thesis
        unfolding unf Some split by (simp add: run_queries_append r)
    qed
  qed
qed

lemma perform_coordinate_lookup_project:
  assumes "0 < NUM_THREADS cfg"
  shows "map_option fst (perform_coordinate_lookup cfg cd uniq qkeys qin qoff wt tls pivs ts) =
           (if uniq = [] \<or> qkeys = [] then Some []
            else run_queries cd qkeys qoff tls pivs [0..<length qkeys] [])"
  using batches_loop_project [OF assms refl, of cd uniq qkeys qoff tls pivs ts 0
      "\<lparr>kmap = [], kmap_write_idx_atomic = 0, mem_trace = []\<rparr>"]
  by (simp add: perform_coordinate_lookup_def Let_def option.map_comp comp_def)

lemma kmap_emplace_back_keys:
  "set (map fst (kmap_emplace_back k v m)) = insert k (set (map fst m))"
proof (induction k v m rule: kmap_emplace_back.induct)
  case (1 k v)
  show ?case by simp
next
  case (2 k v k' vs m)
  show ?case
  proof (cases "k = k'")
    case True
    then show ?thesis by simp
  next
    case False
    show ?thesis
    proof (cases "k < k'")
      case True
      then show ?thesis using False by simp
    next
      case gt: False
      with False 2 have "set (map fst (kmap_emplace_back k v m)) = insert k (set (map fst m))" by simp
      then show ?thesis using False gt by (simp add: insert_commute)
    qed
  qed
qed

lemma kmap_emplace_back_sorted:
  "sorted_wrt (<) (map fst m) \<Longrightarrow> sorted_wrt (<) (map fst (kmap_emplace_back k v m))"
proof (induction m)
  case Nil
  show ?case by simp
next
  case (Cons p m)
  obtain k' vs where p: "p = (k', vs)" by (cases p)
  from Cons.prems have s: "sorted_wrt (<) (map fst m)" and lt: "\<forall>x \<in> set (map fst m). k' < x"
    by (auto simp: p)
  show ?case
  proof (cases "k = k'")
    case True
    then show ?thesis using Cons.prems by (simp add: p)
  next
    case False
    show ?thesis
    proof (cases "k < k'")
      case True
      then show ?thesis using Cons.prems False by (auto simp: p)
    next
      case gt: False
      then have "k' < k" using False by simp
      moreover have "\<forall>x \<in> set (map fst (kmap_emplace_back k v m)). k' < x"
        using lt \<open>k' < k\<close> by (simp add: kmap_emplace_back_keys del: set_map)
      ultimately show ?thesis using False gt Cons.IH [OF s] by (simp add: p)
    qed
  qed
qed

lemma kmap_at_absent: "k \<notin> set (map fst m) \<Longrightarrow> kmap_at m k = []"
  by (simp add: kmap_at_def map_of_eq_None_iff [THEN iffD2])

lemma kmap_at_emplace_back:
  "sorted_wrt (<) (map fst m) \<Longrightarrow>
   kmap_at (kmap_emplace_back k v m) k' = (if k' = k then kmap_at m k @ [v] else kmap_at m k')"
proof (induction m arbitrary: k')
  case Nil
  show ?case by (simp add: kmap_at_def)
next
  case (Cons p m)
  obtain kh vs where p: "p = (kh, vs)" by (cases p)
  from Cons.prems have s: "sorted_wrt (<) (map fst m)" and lt: "\<forall>x \<in> set (map fst m). kh < x"
    by (auto simp: p)
  show ?case
  proof (cases "k = kh")
    case True
    then show ?thesis by (simp add: p kmap_at_def)
  next
    case False
    show ?thesis
    proof (cases "k < kh")
      case True
      have "k \<notin> set (map fst (p # m))" using True lt by (auto simp: p)
      from kmap_at_absent [OF this] show ?thesis
        using True False by (auto simp: p kmap_at_def)
    next
      case gt: False
      have "kmap_at ((kh, vs) # x) j = (if j = kh then vs else kmap_at x j)" for x j
        by (simp add: kmap_at_def)
      then show ?thesis using False gt Cons.IH [OF s, of k'] Cons.IH [OF s, of k] by (auto simp: p)
    qed
  qed
qed

lemma apply_match_at:
  assumes "sorted_wrt (<) (map fst km)"
  shows "sorted_wrt (<) (map fst (apply_match m km))"
    and "kmap_at (apply_match m km) k =
           kmap_at km k @ (case m of Some (k', v) \<Rightarrow> if k' = k then [v] else [] | None \<Rightarrow> [])"
  using assms
  by (auto simp: apply_match_def kmap_emplace_back_sorted kmap_at_emplace_back split: option.splits)

lemma run_queries_at:
  assumes "run_queries cd qkeys qoff tls pivs gs km = Some km'" and "sorted_wrt (<) (map fst km)"
  shows "sorted_wrt (<) (map fst km') \<and>
         (\<forall>k. kmap_at km' k = kmap_at km k @ concat (map (contribution cd qkeys qoff tls pivs k) gs))"
  using assms
proof (induction gs arbitrary: km)
  case Nil
  then show ?case by (simp add: run_queries_def)
next
  case (Cons g gs)
  from Cons.prems(1) obtain m where m: "query_match cd qkeys qoff tls pivs g = Some m"
    and rest: "run_queries cd qkeys qoff tls pivs gs (apply_match m km) = Some km'"
    by (auto simp: run_queries_def split: option.splits)
  note am = apply_match_at [OF Cons.prems(2), of m]
  from Cons.IH [OF rest am(1)]
  have s: "sorted_wrt (<) (map fst km')"
    and a: "\<And>k. kmap_at km' k = kmap_at (apply_match m km) k @
                  concat (map (contribution cd qkeys qoff tls pivs k) gs)"
    by auto
  have c: "contribution cd qkeys qoff tls pivs k g =
             (case m of Some (k', v) \<Rightarrow> if k' = k then [v] else [] | None \<Rightarrow> [])" for k
    by (simp add: contribution_def m split: option.splits)
  show ?case using s a am(2) c by simp
qed

lemma contribution_length: "length (contribution cd qkeys qoff tls pivs k g) \<le> 1"
  by (simp add: contribution_def split: option.splits)

lemma query_match_sound:
  assumes "query_match cd qkeys qoff tls pivs g = Some (Some (k, a, b))"
  shows "g < length qkeys \<and> g < length qoff \<and> k = qoff ! g \<and> b = orig_idx (qkeys ! g) \<and>
         (\<exists>t<length tls. \<exists>e \<in> set (tls ! t). \<exists>key. a = orig_idx e \<and>
            to_key cd (coord e) = Some key \<and> to_key cd (coord (qkeys ! g)) = Some key)"
proof -
  from assms have g: "g < length qkeys" "g < length qoff"
    by (auto simp: query_match_def split: if_splits)
  from assms g obtain q t found where q: "to_key cd (coord (qkeys ! g)) = Some q"
    and t: "(if pivs \<noteq> [] then find_tile_id_value cd pivs q 0 (int_of_size (length pivs) - 1) 0
             else Some (- 1)) = Some t"
    and f: "(if t \<noteq> - 1 \<and> t < int_of_size (length tls)
             then search_in_tile_value cd q (tls ! nat t) else Some None) = Some found"
    and r: "map_option (\<lambda>a. (qoff ! g, a, orig_idx (qkeys ! g))) found = Some (k, a, b)"
    by (auto simp: query_match_def split: Option.bind_splits)
  from r have found: "found = Some a" and kb: "k = qoff ! g" "b = orig_idx (qkeys ! g)" by auto
  from f found have tt: "t \<noteq> - 1" "t < int_of_size (length tls)"
    and sv: "search_in_tile_value cd q (tls ! nat t) = Some (Some a)"
    by (auto split: if_splits)
  from t tt(1) have "find_tile_id_value cd pivs q 0 (int_of_size (length pivs) - 1) 0 = Some t"
    by (auto split: if_splits)
  from find_tile_id_value_range [OF this] have "0 \<le> t" by auto
  with tt(2) int_of_size_le [of "length tls"] have "nat t < length tls" by simp
  with search_in_tile_value_sound [OF sv] q g kb show ?thesis by blast
qed

end
